theory Spec2Isabelle
  imports Main "HOL-Library.Word" "HOL-Library.Multiset"
begin

section \<open>Cards (Card.hpp, Card.cpp)\<close>

text \<open>
  \<^verbatim>\<open>enum class Suit : unsigned char\<close> and \<^verbatim>\<open>enum class Rank : unsigned char\<close> are
  byte-sized: \<^verbatim>\<open>static_cast\<close> from an int (in \<^verbatim>\<open>readCard\<close> and in
  \<^verbatim>\<open>moveFromReserveToColumn\<close>) can store any of the 256 byte values, so both are
  modelled as 8-bit words with the enumerators as named constants.
\<close>

type_synonym byte = "8 word"

abbreviation Hearts :: byte where "Hearts \<equiv> 0"
abbreviation Diamonds :: byte where "Diamonds \<equiv> 1"
abbreviation Clubs :: byte where "Clubs \<equiv> 2"
abbreviation Spades :: byte where "Spades \<equiv> 3"

abbreviation Ace :: byte where "Ace \<equiv> 1"
abbreviation Two :: byte where "Two \<equiv> 2"
abbreviation Three :: byte where "Three \<equiv> 3"
abbreviation King :: byte where "King \<equiv> 13"

record Card =
  suit :: byte
  rank :: byte
  facingUp :: bool
  valid :: bool

text \<open>
  \<^verbatim>\<open>Card::Card() : valid(false) {}\<close> initialises only \<^verbatim>\<open>valid\<close>; suit, rank and
  facingUp keep whatever the storage held. The storage contents are the argument \<open>u\<close>.
\<close>

definition Card_default :: "Card \<Rightarrow> Card" where
  "Card_default u = u\<lparr>valid := False\<rparr>"

definition Card_init :: "byte \<Rightarrow> byte \<Rightarrow> Card" where
  "Card_init s r = \<lparr>suit = s, rank = r, facingUp = False, valid = True\<rparr>"

definition flip :: "Card \<Rightarrow> Card" where
  "flip c = c\<lparr>facingUp := \<not> facingUp c\<rparr>"

definition isRed :: "Card \<Rightarrow> bool" where
  "isRed c = (suit c = Hearts \<or> suit c = Diamonds)"

section \<open>Deck (Deck.hpp, Deck.cpp)\<close>

text \<open>
  A \<^verbatim>\<open>Deck\<close> has the single member \<^verbatim>\<open>std::vector<Card> cards\<close>; the last element is
  the top. \<^verbatim>\<open>std::shuffle\<close> is library code driven by a random generator: it is
  modelled as the Fisher-Yates exchange loop, with the generator's draw for
  position \<open>i\<close> given by \<open>g i\<close> and reduced into \<open>0..i\<close>.
\<close>

type_synonym Deck = "Card list"

definition swap_at :: "nat \<Rightarrow> nat \<Rightarrow> 'a list \<Rightarrow> 'a list" where
  "swap_at i j xs = xs[i := xs ! j, j := xs ! i]"

definition shuffle :: "(nat \<Rightarrow> nat) \<Rightarrow> 'a list \<Rightarrow> 'a list" where
  "shuffle g xs = fold (\<lambda>i ys. swap_at i (g i mod Suc i) ys) [1..<length xs] xs"

definition Deck_isEmpty :: "Deck \<Rightarrow> bool" where
  "Deck_isEmpty cards = (length cards = 0)"

text \<open>\<^verbatim>\<open>ASSERT\<close> aborts on a false condition; an abort is the result \<open>None\<close>.\<close>

definition Deck_drawCard :: "Deck \<Rightarrow> (Card \<times> Deck) option" where
  "Deck_drawCard cards =
     (if Deck_isEmpty cards then None
      else Some (cards ! (length cards - 1), butlast cards))"

definition Deck_reShuffle :: "(nat \<Rightarrow> nat) \<Rightarrow> Deck \<Rightarrow> Card list \<Rightarrow> (Deck \<times> Card list) option" where
  "Deck_reShuffle g cards pile =
     (if \<not> Deck_isEmpty cards then None
      else Some (map flip (shuffle g pile), []))"

definition canonical_cards :: "Card list" where
  "canonical_cards =
     concat (map (\<lambda>s. map (\<lambda>r. Card_init (of_nat s) (of_nat r)) [1..<14]) [0..<4])"

definition Deck_reset :: "(nat \<Rightarrow> nat) \<Rightarrow> Deck" where
  "Deck_reset g = shuffle g canonical_cards"

section \<open>Game (Game.hpp, Game.cpp)\<close>

record Game =
  deck :: Deck
  currentCard :: Card
  columns :: "Card list list"
  pile :: "Card list"
  reserveSlots :: "Card list"

abbreviation columnsSize :: int where "columnsSize \<equiv> 7"
abbreviation reserveSlotSize :: int where "reserveSlotSize \<equiv> 4"

text \<open>The two C arrays have fixed sizes 7 and 4.\<close>

definition wf_game :: "Game \<Rightarrow> bool" where
  "wf_game g = (length (columns g) = 7 \<and> length (reserveSlots g) = 4)"

text \<open>
  \<^verbatim>\<open>Game::Game() : deck(), currentCard() {}\<close>: a freshly shuffled deck, empty columns
  and pile, default-constructed cards in \<^verbatim>\<open>currentCard\<close> and the reserve slots.
\<close>

definition Game_new :: "(nat \<Rightarrow> nat) \<Rightarrow> Card \<Rightarrow> Game" where
  "Game_new g u =
     \<lparr>deck = Deck_reset g, currentCard = Card_default u, columns = replicate 7 [],
      pile = [], reserveSlots = replicate 4 (Card_default u)\<rparr>"

text \<open>The inner loop of \<^verbatim>\<open>start\<close>: \<open>n\<close> draws pushed onto one column.\<close>

fun deal :: "nat \<Rightarrow> Deck \<Rightarrow> Card list \<Rightarrow> (Deck \<times> Card list) option" where
  "deal 0 d col = Some (d, col)"
| "deal (Suc n) d col =
     (case Deck_drawCard d of
        None \<Rightarrow> None
      | Some (c, d') \<Rightarrow> deal n d' (col @ [c]))"

text \<open>The outer loop of \<^verbatim>\<open>start\<close>, over the column indices in \<open>is\<close>.\<close>

fun start_loop :: "nat list \<Rightarrow> Game \<Rightarrow> Game option" where
  "start_loop [] g = Some g"
| "start_loop (i # is) g =
     (case deal (i + 1) (deck g) (columns g ! i) of
        None \<Rightarrow> None
      | Some (d', col) \<Rightarrow>
          start_loop is
            (g\<lparr>deck := d',
               columns := (columns g)[i := col[length col - 1 := flip (col ! (length col - 1))]]\<rparr>))"

definition start :: "Game \<Rightarrow> Game option" where
  "start g = start_loop [0..<7] g"

definition reset :: "(nat \<Rightarrow> nat) \<Rightarrow> Card \<Rightarrow> Game \<Rightarrow> Game option" where
  "reset rnd u g =
     start (g\<lparr>deck := Deck_reset rnd, currentCard := Card_default u,
              columns := map (\<lambda>_. []) (columns g),
              reserveSlots := map (\<lambda>_. Card_default u) (reserveSlots g),
              pile := []\<rparr>)"

definition drawCard :: "Game \<Rightarrow> (bool \<times> Game) option" where
  "drawCard g =
     (if Deck_isEmpty (deck g) then Some (False, g)
      else case Deck_drawCard (deck g) of
             None \<Rightarrow> None
           | Some (c, d') \<Rightarrow>
               Some (True, g\<lparr>deck := d', currentCard := flip c, pile := pile g @ [flip c]\<rparr>))"

definition reShuffle :: "(nat \<Rightarrow> nat) \<Rightarrow> Game \<Rightarrow> Game option" where
  "reShuffle rnd g =
     (case Deck_reShuffle rnd (deck g) (pile g) of
        None \<Rightarrow> None
      | Some (d', p') \<Rightarrow> Some (g\<lparr>deck := d', pile := p'\<rparr>))"

text \<open>
  The statement \<^verbatim>\<open>if (!col.empty() && !col.back().isFacingUp()) col.back().flip();\<close>
  that ends \<^verbatim>\<open>moveCard\<close> and \<^verbatim>\<open>moveFromColumnToReserve\<close>.
\<close>

definition reveal :: "Card list \<Rightarrow> Card list" where
  "reveal col =
     (if col \<noteq> [] \<and> \<not> facingUp (last col) then butlast col @ [flip (last col)] else col)"

text \<open>
  The mutation of \<^verbatim>\<open>moveCard\<close> after its checks. The insert and the erase write
  through the references \<^verbatim>\<open>to\<close> and \<^verbatim>\<open>from\<close>, which alias when
  \<^verbatim>\<open>fromCol == toCol\<close>: the column array is updated in the order of the source and
  re-read after each update.
\<close>

definition move_run :: "Card list list \<Rightarrow> nat \<Rightarrow> nat \<Rightarrow> nat \<Rightarrow> Card list list" where
  "move_run cols fromCol toCol cnt =
     (let from = cols ! fromCol;
          movingCards = drop (length from - cnt) from;
          cols1 = cols[toCol := cols ! toCol @ movingCards];
          from1 = cols1 ! fromCol;
          cols2 = cols1[fromCol := take (length from1 - cnt) from1]
      in cols2[fromCol := reveal (cols2 ! fromCol)])"

definition moveCard :: "Game \<Rightarrow> int \<Rightarrow> int \<Rightarrow> int \<Rightarrow> (bool \<times> Game) option" where
  "moveCard g fromCol toCol cnt =
     (if \<not> (fromCol < columnsSize \<and> fromCol \<ge> 0) then None
      else if \<not> (toCol < columnsSize \<and> toCol \<ge> 0) then None
      else
        let from = columns g ! nat fromCol;
            to = columns g ! nat toCol
        in
        if cnt \<le> 0 \<or> nat cnt > length from then Some (False, g)
        else
          let startCard = from ! (length from - nat cnt) in
          if \<not> facingUp startCard then Some (False, g)
          else if to = [] \<and> rank startCard \<noteq> King then Some (False, g)
          else if to \<noteq> [] \<and>
                  (isRed (last to) = isRed startCard \<or>
                   uint (rank (last to)) \<noteq> uint (rank startCard) + 1) then Some (False, g)
          else Some (True, g\<lparr>columns := move_run (columns g) (nat fromCol) (nat toCol) (nat cnt)\<rparr>))"

definition moveFromPileToColumn :: "Game \<Rightarrow> int \<Rightarrow> (bool \<times> Game) option" where
  "moveFromPileToColumn g toCol =
     (if \<not> (toCol < columnsSize \<and> toCol \<ge> 0) then None
      else if pile g = [] then Some (False, g)
      else
        let card = last (pile g);
            to = columns g ! nat toCol
        in
        if to = [] \<and> rank card \<noteq> King then Some (False, g)
        else if to \<noteq> [] \<and>
                (isRed (last to) = isRed card \<or>
                 uint (rank (last to)) \<noteq> uint (rank card) + 1) then Some (False, g)
        else Some (True, g\<lparr>columns := (columns g)[nat toCol := to @ [card]],
                            pile := butlast (pile g)\<rparr>))"

definition moveFromPileToReserve :: "Game \<Rightarrow> int \<Rightarrow> (bool \<times> Game) option" where
  "moveFromPileToReserve g slot =
     (if \<not> (slot < reserveSlotSize \<and> slot \<ge> 0) then None
      else if pile g = [] then Some (False, g)
      else
        let card = last (pile g);
            cardValid = valid (reserveSlots g ! nat slot)
        in
        if (\<not> cardValid \<and> rank card = Ace \<and> uint (suit card) = slot) \<or>
           ((cardValid \<and> rank card > rank (reserveSlots g ! nat slot)) \<and> uint (suit card) = slot)
        then Some (True, g\<lparr>reserveSlots := (reserveSlots g)[nat slot := card],
                            pile := butlast (pile g)\<rparr>)
        else Some (False, g))"

definition moveFromColumnToReserve :: "Game \<Rightarrow> int \<Rightarrow> int \<Rightarrow> (bool \<times> Game) option" where
  "moveFromColumnToReserve g fromCol slot =
     (if \<not> (fromCol < columnsSize \<and> fromCol \<ge> 0) then None
      else if \<not> (slot < reserveSlotSize \<and> slot \<ge> 0) then None
      else
        let column = columns g ! nat fromCol in
        if column = [] then Some (False, g)
        else
          let card = last column in
          if \<not> facingUp card then Some (False, g)
          else
            let cardValid = valid (reserveSlots g ! nat slot) in
            if (\<not> cardValid \<and> rank card = Ace \<and> uint (suit card) = slot) \<or>
               ((cardValid \<and> rank card > rank (reserveSlots g ! nat slot)) \<and> uint (suit card) = slot)
            then
              Some (True, g\<lparr>reserveSlots := (reserveSlots g)[nat slot := card],
                             columns := (columns g)[nat fromCol := reveal (butlast column)]\<rparr>)
            else Some (False, g))"

text \<open>
  The second assertion of \<^verbatim>\<open>moveFromReserveToColumn\<close> is
  \<^verbatim>\<open>ASSERT(toCol < columnsSize && slot >= 0)\<close>; a negative \<^verbatim>\<open>toCol\<close> passes it and
  indexes the array out of bounds, which is modelled as \<open>None\<close> as well.
  \<^verbatim>\<open>static_cast<Rank>(static_cast<int>(rank) - 1)\<close> is the byte \<open>rank - 1\<close>.
\<close>

definition moveFromReserveToColumn :: "Card \<Rightarrow> Game \<Rightarrow> int \<Rightarrow> int \<Rightarrow> (bool \<times> Game) option" where
  "moveFromReserveToColumn u g slot toCol =
     (if \<not> (slot < reserveSlotSize \<and> slot \<ge> 0) then None
      else if \<not> (toCol < columnsSize \<and> slot \<ge> 0) then None
      else if toCol < 0 then None
      else
        let column = columns g ! nat toCol;
            card = reserveSlots g ! nat slot
        in
        if column = [] \<and> rank card \<noteq> King then Some (False, g)
        else if column \<noteq> [] \<and>
                (isRed (last column) = isRed card \<or>
                 uint (rank (last column)) \<noteq> uint (rank card) + 1) then Some (False, g)
        else
          Some (True,
            g\<lparr>columns := (columns g)[nat toCol := column @ [card]],
              reserveSlots := (reserveSlots g)[nat slot :=
                 (if rank card \<noteq> Ace then flip (Card_init (suit card) (rank card - 1))
                  else Card_default u)]\<rparr>))"

text \<open>
  \<^verbatim>\<open>isGameWon\<close>: the inner loop over \<open>j\<close> with its two \<^verbatim>\<open>break\<close>s, and the outer
  loop over the columns with the counter \<^verbatim>\<open>cnt\<close>.
\<close>

function column_loop :: "Card list \<Rightarrow> nat \<Rightarrow> bool" where
  "column_loop column j =
     (if j < 13 then
        (if rank (column ! j) \<noteq> of_nat (13 - j) \<or> \<not> facingUp (column ! j) then False
         else if j > 0 \<and> isRed (column ! j) = isRed (column ! (j - 1)) then False
         else column_loop column (j + 1))
      else True)"
  by pat_completeness auto
termination
  by (relation "measure (\<lambda>(column, j). 13 - j)") auto

function won_loop :: "Card list list \<Rightarrow> nat \<Rightarrow> int \<Rightarrow> int" where
  "won_loop cols i cnt =
     (if i < 7 then
        (let column = cols ! i in
         if length column \<noteq> 13 then won_loop cols (i + 1) cnt
         else won_loop cols (i + 1) (if column_loop column 0 then cnt + 1 else cnt))
      else cnt)"
  by pat_completeness auto
termination
  by (relation "measure (\<lambda>(cols, i, cnt). 7 - i)") auto

definition isGameWon :: "Game \<Rightarrow> bool" where
  "isGameWon g = (won_loop (columns g) 0 0 = 4)"

section \<open>Buffered file I/O (util/fs.hpp)\<close>

text \<open>
  The file system is a table of file contents together with the paths whose
  \<^verbatim>\<open>open\<close> fails. A writer that is open is the list of bytes written so far; a
  reader is the unread input and the stream's fail flag, which stays set once a
  read ran short.
\<close>

record FS =
  files :: "string \<Rightarrow> byte list option"
  unopenable :: "string \<Rightarrow> bool"

record Reader =
  r_bytes :: "byte list"
  r_fail :: bool

definition writeInt :: "byte list \<Rightarrow> 32 word \<Rightarrow> byte list" where
  "writeInt w v =
     w @ [ucast (and v 255), ucast (and (signed_drop_bit 8 v) 255),
          ucast (and (signed_drop_bit 16 v) 255), ucast (and (signed_drop_bit 24 v) 255)]"

definition writeBool :: "byte list \<Rightarrow> bool \<Rightarrow> byte list" where
  "writeBool w b = w @ [if b then 1 else 0]"

definition reader_read :: "Reader \<Rightarrow> nat \<Rightarrow> byte list \<times> Reader" where
  "reader_read r n =
     (if r_fail r then ([], r)
      else if n \<le> length (r_bytes r) then (take n (r_bytes r), r\<lparr>r_bytes := drop n (r_bytes r)\<rparr>)
      else (r_bytes r, r\<lparr>r_bytes := [], r_fail := True\<rparr>))"

definition readInt :: "Reader \<Rightarrow> 32 word \<times> Reader" where
  "readInt r =
     (case reader_read r 4 of
        (buffer, r') \<Rightarrow>
          if length buffer \<noteq> 4 then (- 1, r')
          else (or (ucast (buffer ! 0))
                  (or (push_bit 8 (ucast (buffer ! 1)))
                     (or (push_bit 16 (ucast (buffer ! 2))) (push_bit 24 (ucast (buffer ! 3))))),
                r'))"

definition readBool :: "Reader \<Rightarrow> 32 word \<times> Reader" where
  "readBool r =
     (case reader_read r 1 of
        (buffer, r') \<Rightarrow>
          if length buffer \<noteq> 1 then (- 1, r')
          else (if buffer ! 0 \<noteq> 0 then 1 else 0, r'))"

section \<open>Persistence (Card::writeCard, Card::readCard, Game::saveFileGame, Game::readFileGame)\<close>

definition writeCard :: "Card \<Rightarrow> byte list \<Rightarrow> byte list" where
  "writeCard c w =
     writeBool (writeBool (writeInt (writeInt w (ucast (suit c))) (ucast (rank c))) (facingUp c))
       (valid c)"

definition readCard :: "Reader \<Rightarrow> Card \<times> Reader" where
  "readCard r =
     (case readInt r of (s, r1) \<Rightarrow>
      case readInt r1 of (k, r2) \<Rightarrow>
      case readBool r2 of (f, r3) \<Rightarrow>
      case readBool r3 of (v, r4) \<Rightarrow>
        (\<lparr>suit = ucast s, rank = ucast k, facingUp = (f \<noteq> 0), valid = (v \<noteq> 0)\<rparr>, r4))"

definition magicNumber :: "byte list" where
  "magicNumber = map (\<lambda>c. of_nat (of_char c)) ''Solitaire''"

definition write_cards :: "Card list \<Rightarrow> byte list \<Rightarrow> byte list" where
  "write_cards cards w = fold writeCard cards (writeInt w (of_nat (length cards)))"

text \<open>
  \<^verbatim>\<open>saveFileGame\<close> has the single statement \<^verbatim>\<open>return false\<close>; after
  \<^verbatim>\<open>writer.flush()\<close> control reaches the closing brace of the function without a
  \<^verbatim>\<open>return\<close>. The returned value is \<open>Some b\<close> for \<^verbatim>\<open>return b\<close> and \<open>None\<close>
  when the function ends without returning a value.
\<close>

definition saveFileGame :: "Game \<Rightarrow> string \<Rightarrow> FS \<Rightarrow> bool option \<times> FS" where
  "saveFileGame g name fs =
     (let path = name @ ''.sot'' in
      if unopenable fs path then (Some False, fs)
      else
        let w1 = [] @ magicNumber;
            w2 = write_cards (deck g) w1;
            w3 = fold (\<lambda>i w. write_cards (columns g ! i) w) [0..<7] w2;
            w4 = write_cards (pile g) w3;
            w5 = fold (\<lambda>i w. writeCard (reserveSlots g ! i) w) [0..<4] w4
        in (None, fs\<lparr>files := (files fs)(path := Some w5)\<rparr>))"

text \<open>The loops of \<^verbatim>\<open>readFileGame\<close> that call \<^verbatim>\<open>readCard\<close> \<open>n\<close> times.\<close>

fun read_cards :: "nat \<Rightarrow> Reader \<Rightarrow> Card list \<times> Reader" where
  "read_cards 0 r = ([], r)"
| "read_cards (Suc n) r =
     (case readCard r of (c, r1) \<Rightarrow>
      case read_cards n r1 of (cs, r2) \<Rightarrow> (c # cs, r2))"

text \<open>
  \<^verbatim>\<open>std::vector<Card> cards(size)\<close> with a negative \<^verbatim>\<open>int size\<close> asks for more than
  \<^verbatim>\<open>max_size()\<close> elements and throws; nothing catches it, which is the result
  \<open>None\<close>.
\<close>

fun read_columns :: "nat list \<Rightarrow> Reader \<Rightarrow> Card list list \<Rightarrow> (Card list list \<times> Reader) option" where
  "read_columns [] r cols = Some (cols, r)"
| "read_columns (i # is) r cols =
     (case readInt r of (sz, r1) \<Rightarrow>
        if sint sz < 0 then None
        else case read_cards (nat (sint sz)) r1 of
               (cards, r2) \<Rightarrow> read_columns is r2 (cols[i := cards]))"

text \<open>
  \<open>u\<close> is the storage of a default-constructed card and \<open>uv\<close> the uninitialised
  contents of \<^verbatim>\<open>char verify[9]\<close>. The reader's constructor creates a missing file
  before opening it. The deck loop pushes each card it reads onto a vector that
  already holds \<^verbatim>\<open>deckSize\<close> default-constructed cards.
\<close>

definition readFileGame :: "Card \<Rightarrow> byte list \<Rightarrow> Game \<Rightarrow> string \<Rightarrow> FS \<Rightarrow> (bool \<times> Game) option \<times> FS" where
  "readFileGame u uv g name fs =
     (let path = name @ ''.sot'';
          fs1 = (if files fs path = None \<and> \<not> unopenable fs path
                 then fs\<lparr>files := (files fs)(path := Some [])\<rparr> else fs)
      in
      if unopenable fs1 path then (Some (False, g), fs1)
      else case files fs1 path of
        None \<Rightarrow> (Some (False, g), fs1)
      | Some content \<Rightarrow>
         (case reader_read \<lparr>r_bytes = content, r_fail = False\<rparr> 9 of (got, r1) \<Rightarrow>
          if take 9 (got @ drop (length got) uv) \<noteq> magicNumber then (Some (False, g), fs1)
          else case readInt r1 of (deckSize, r2) \<Rightarrow>
            if sint deckSize < 0 then (None, fs1)
            else case read_cards (nat (sint deckSize)) r2 of (cs, r3) \<Rightarrow>
              (case read_columns [0..<7] r3 (columns g) of
                 None \<Rightarrow> (None, fs1)
               | Some (cols, r4) \<Rightarrow>
                  (case readInt r4 of (pileSize, r5) \<Rightarrow>
                   if sint pileSize < 0 then (None, fs1)
                   else case read_cards (nat (sint pileSize)) r5 of (pileCards, r6) \<Rightarrow>
                     (case read_cards 4 r6 of (rs, r7) \<Rightarrow>
                        (Some (True,
                           g\<lparr>deck := replicate (nat (sint deckSize)) (Card_default u) @ cs,
                             columns := cols, pile := pileCards, reserveSlots := rs\<rparr>), fs1))))))"

section \<open>Specification-side notions and sample states\<close>

text \<open>Reading the result of an operation: it returned \<^verbatim>\<open>true\<close>.\<close>

definition succeeds :: "(bool \<times> Game) option \<Rightarrow> bool" where
  "succeeds r = (case r of None \<Rightarrow> False | Some (b, _) \<Rightarrow> b)"

text \<open>
  The landing rule in the words of the specification: the destination is empty and the
  moving card is a King, or the destination is non-empty, the colours differ and the
  destination's top rank is the moving card's rank plus one.
\<close>

definition landing_rule :: "Card list \<Rightarrow> Card \<Rightarrow> bool" where
  "landing_rule dest c =
     ((dest = [] \<and> rank c = King) \<or>
      (dest \<noteq> [] \<and> isRed (last dest) \<noteq> isRed c \<and> uint (rank (last dest)) = uint (rank c) + 1))"

definition face_up :: "byte \<Rightarrow> byte \<Rightarrow> Card" where
  "face_up s r = flip (Card_init s r)"

definition no_card :: Card where
  "no_card = Card_default (Card_init 0 0)"

definition empty_game :: Game where
  "empty_game = \<lparr>deck = [], currentCard = no_card, columns = [[], [], [], [], [], [], []],
                  pile = [], reserveSlots = [no_card, no_card, no_card, no_card]\<rparr>"

definition table_ex :: Game where
  "table_ex = empty_game
     \<lparr>columns := [[Card_init Clubs 5, face_up Hearts King], [], [face_up Spades Three], [], [], [], []],
      pile := [face_up Hearts Two],
      reserveSlots := [no_card, face_up Diamonds Two, no_card, no_card]\<rparr>"

definition sentinel_game :: Game where
  "sentinel_game = empty_game
     \<lparr>columns := [[], [], [face_up Spades Three], [], [], [], []],
      reserveSlots := [Card_default (Card_init Hearts Two), no_card, no_card, no_card]\<rparr>"

definition ace_on_pile :: Game where
  "ace_on_pile = empty_game\<lparr>pile := [face_up Hearts Ace]\<rparr>"

definition three_on_ace :: Game where
  "three_on_ace = empty_game\<lparr>pile := [face_up Hearts Three],
       reserveSlots := [face_up Hearts Ace, no_card, no_card, no_card]\<rparr>"

definition two_on_ace :: Game where
  "two_on_ace = empty_game\<lparr>pile := [face_up Hearts Two],
       reserveSlots := [face_up Hearts Ace, no_card, no_card, no_card]\<rparr>"

definition table_after_move :: Game where
  "table_after_move = table_ex
     \<lparr>columns := [[face_up Clubs 5], [face_up Hearts King], [face_up Spades Three], [], [], [], []]\<rparr>"

definition reserve_suits_ok :: "Game \<Rightarrow> bool" where
  "reserve_suits_ok g =
     (\<forall>i<4. valid (reserveSlots g ! i) \<longrightarrow> unat (suit (reserveSlots g ! i)) = i)"

definition table_after_reserve_move :: Game where
  "table_after_reserve_move = table_ex
     \<lparr>columns := [[Card_init Clubs 5, face_up Hearts King], [],
                  [face_up Spades Three, face_up Diamonds Two], [], [], [], []],
      reserveSlots := [no_card, face_up Diamonds Ace, no_card, no_card]\<rparr>"

definition sentinel_after :: Game where
  "sentinel_after = sentinel_game
     \<lparr>columns := [[], [], [face_up Spades Three, Card_default (Card_init Hearts Two)], [], [], [], []],
      reserveSlots := [face_up Hearts Ace, no_card, no_card, no_card]\<rparr>"

definition two_on_ace_after :: Game where
  "two_on_ace_after = empty_game\<lparr>reserveSlots := [face_up Hearts Two, no_card, no_card, no_card]\<rparr>"

text \<open>
  The winning condition in the words of the specification: a column counts when it has
  exactly 13 cards whose ranks run from King down to Ace, every card face-up and adjacent
  cards of different colour; the game is won when exactly four columns count.
\<close>

definition king_to_ace :: "byte list" where
  "king_to_ace = rev (map of_nat [1..<14])"

definition complete_column :: "Card list \<Rightarrow> bool" where
  "complete_column col =
     (length col = 13 \<and> map rank col = king_to_ace \<and> (\<forall>c\<in>set col. facingUp c) \<and>
      (\<forall>j\<in>{0..<length col - 1}. isRed (col ! Suc j) \<noteq> isRed (col ! j)))"

definition black_king_run :: "Card list" where
  "black_king_run = map (\<lambda>k. face_up (if even k then Spades else Hearts) (of_nat (13 - k))) [0..<13]"

definition won_game :: Game where
  "won_game = empty_game
     \<lparr>columns := [[], black_king_run, black_king_run, black_king_run, black_king_run, [], []]\<rparr>"

definition empty_fs :: FS where
  "empty_fs = \<lparr>files = (\<lambda>_. None), unopenable = (\<lambda>_. False)\<rparr>"

definition one_card_deck :: Game where
  "one_card_deck = empty_game\<lparr>deck := [Card_init Hearts Ace]\<rparr>"

text \<open>
  The cards of a state: the deck, the seven columns, the pile and the reserve slots that
  hold a valid card; their (suit, rank) pairs as a multiset; and the canonical 52 pairs.
\<close>

definition key :: "Card \<Rightarrow> byte \<times> byte" where
  "key c = (suit c, rank c)"

definition held_cards :: "Game \<Rightarrow> Card list" where
  "held_cards g = deck g @ concat (columns g) @ pile g @ filter valid (reserveSlots g)"

definition card_multiset :: "Game \<Rightarrow> (byte \<times> byte) multiset" where
  "card_multiset g = mset (map key (held_cards g))"

definition canonical_pairs :: "(byte \<times> byte) list" where
  "canonical_pairs = List.product [Hearts, Diamonds, Clubs, Spades] (map of_nat [1..<14])"

text \<open>A card with its facing flag cleared: what a move never changes.\<close>

definition unface :: "Card \<Rightarrow> Card" where
  "unface c = c\<lparr>facingUp := False\<rparr>"

text \<open>The states reachable from \<^verbatim>\<open>start()\<close> on a new game by the mutation operations.\<close>

inductive reachable :: "Game \<Rightarrow> bool" where
  r_start: "start (Game_new rnd u) = Some g \<Longrightarrow> reachable g"
| r_drawCard: "reachable g \<Longrightarrow> drawCard g = Some (b, g') \<Longrightarrow> reachable g'"
| r_moveCard: "reachable g \<Longrightarrow> moveCard g fromCol toCol cnt = Some (b, g') \<Longrightarrow> reachable g'"
| r_moveFromPileToColumn:
    "reachable g \<Longrightarrow> moveFromPileToColumn g toCol = Some (b, g') \<Longrightarrow> reachable g'"
| r_moveFromPileToReserve:
    "reachable g \<Longrightarrow> moveFromPileToReserve g slot = Some (b, g') \<Longrightarrow> reachable g'"
| r_moveFromColumnToReserve:
    "reachable g \<Longrightarrow> moveFromColumnToReserve g fromCol slot = Some (b, g') \<Longrightarrow> reachable g'"
| r_moveFromReserveToColumn:
    "reachable g \<Longrightarrow> moveFromReserveToColumn u g slot toCol = Some (b, g') \<Longrightarrow> reachable g'"
| r_reShuffle: "reachable g \<Longrightarrow> reShuffle rnd g = Some g' \<Longrightarrow> reachable g'"

text \<open>
  The same, with the reserve moves restricted to those that keep every card: a move into
  a reserve slot only when the slot is empty, and a move out of a slot only when it holds
  a valid Ace.
\<close>

inductive reachable_keeping :: "Game \<Rightarrow> bool" where
  k_start: "start (Game_new rnd u) = Some g \<Longrightarrow> reachable_keeping g"
| k_drawCard: "reachable_keeping g \<Longrightarrow> drawCard g = Some (b, g') \<Longrightarrow> reachable_keeping g'"
| k_moveCard:
    "reachable_keeping g \<Longrightarrow> moveCard g fromCol toCol cnt = Some (b, g') \<Longrightarrow> reachable_keeping g'"
| k_moveFromPileToColumn:
    "reachable_keeping g \<Longrightarrow> moveFromPileToColumn g toCol = Some (b, g') \<Longrightarrow> reachable_keeping g'"
| k_moveFromPileToReserve:
    "reachable_keeping g \<Longrightarrow> \<not> valid (reserveSlots g ! nat slot) \<Longrightarrow>
     moveFromPileToReserve g slot = Some (b, g') \<Longrightarrow> reachable_keeping g'"
| k_moveFromColumnToReserve:
    "reachable_keeping g \<Longrightarrow> \<not> valid (reserveSlots g ! nat slot) \<Longrightarrow>
     moveFromColumnToReserve g fromCol slot = Some (b, g') \<Longrightarrow> reachable_keeping g'"
| k_moveFromReserveToColumn:
    "reachable_keeping g \<Longrightarrow> valid (reserveSlots g ! nat slot) \<Longrightarrow>
     rank (reserveSlots g ! nat slot) = Ace \<Longrightarrow>
     moveFromReserveToColumn u g slot toCol = Some (b, g') \<Longrightarrow> reachable_keeping g'"
| k_reShuffle: "reachable_keeping g \<Longrightarrow> reShuffle rnd g = Some g' \<Longrightarrow> reachable_keeping g'"

text \<open>
  A run of the game: the generator's draws leave the deck in order except that the Ace of
  Spades ends on top and the Two of Spades third from the top, so the deal puts the Ace
  on column 0 and the Two on top of column 1; both are then moved to \<^verbatim>\<open>reserves[3]\<close>.
\<close>

definition ace_first :: "nat \<Rightarrow> nat" where
  "ace_first i = (if i = 51 then 39 else if i = 49 then 40 else i)"

definition dealt :: Game where
  "dealt = (case start (Game_new ace_first no_card) of Some g \<Rightarrow> g | None \<Rightarrow> empty_game)"

definition ace_placed :: Game where
  "ace_placed = (case moveFromColumnToReserve dealt 0 3 of Some (b, g) \<Rightarrow> g | None \<Rightarrow> empty_game)"

definition ace_lost :: Game where
  "ace_lost = (case moveFromColumnToReserve ace_placed 1 3 of Some (b, g) \<Rightarrow> g | None \<Rightarrow> empty_game)"

text \<open>
  The cards of a list with the facing flags cleared, as a multiset, and the invariant of
  the conservation proof: a well-formed state whose cards, up to facing, are the 52
  canonical cards.
\<close>

definition faceless :: "Card list \<Rightarrow> Card multiset" where
  "faceless xs = mset (map unface xs)"

definition all_cards_held :: "Game \<Rightarrow> bool" where
  "all_cards_held g = (wf_game g \<and> faceless (held_cards g) = mset canonical_cards)"

section \<open>Basic facts about the operations\<close>

lemmas sample_defs = empty_game_def table_ex_def sentinel_game_def ace_on_pile_def three_on_ace_def
  two_on_ace_def table_after_move_def face_up_def no_card_def Card_init_def Card_default_def flip_def

lemma reveal_top: "reveal col \<noteq> [] \<Longrightarrow> facingUp (last (reveal col))"
  by (auto simp: reveal_def flip_def split: if_splits)

lemma length_reveal [simp]: "length (reveal col) = length col"
  by (simp add: reveal_def)

lemma length_move_run [simp]: "length (move_run cols f t c) = length cols"
  by (simp add: move_run_def Let_def)

lemma move_run_from: "f < length cols \<Longrightarrow> \<exists>col. move_run cols f t c ! f = reveal col"
  by (auto simp: move_run_def Let_def)

lemma moveCard_True:
  assumes "moveCard g fromCol toCol cnt = Some (True, g')"
  shows "0 \<le> fromCol \<and> fromCol < 7 \<and> 0 \<le> toCol \<and> toCol < 7 \<and> 0 < cnt
     \<and> nat cnt \<le> length (columns g ! nat fromCol)
     \<and> g' = g\<lparr>columns := move_run (columns g) (nat fromCol) (nat toCol) (nat cnt)\<rparr>"
  using assms unfolding moveCard_def Let_def by (simp split: if_splits)

lemma moveFromColumnToReserve_True:
  assumes "moveFromColumnToReserve g fromCol slot = Some (True, g')"
  shows "0 \<le> fromCol \<and> fromCol < 7 \<and> 0 \<le> slot \<and> slot < 4
     \<and> columns g ! nat fromCol \<noteq> [] \<and> facingUp (last (columns g ! nat fromCol))
     \<and> uint (suit (last (columns g ! nat fromCol))) = slot
     \<and> (if valid (reserveSlots g ! nat slot)
         then rank (reserveSlots g ! nat slot) < rank (last (columns g ! nat fromCol))
         else rank (last (columns g ! nat fromCol)) = Ace)
     \<and> g' = g\<lparr>reserveSlots := (reserveSlots g)[nat slot := last (columns g ! nat fromCol)],
              columns := (columns g)[nat fromCol := reveal (butlast (columns g ! nat fromCol))]\<rparr>"
  using assms unfolding moveFromColumnToReserve_def Let_def by (auto split: if_splits)

lemma moveFromPileToReserve_True:
  assumes "moveFromPileToReserve g slot = Some (True, g')"
  shows "0 \<le> slot \<and> slot < 4 \<and> pile g \<noteq> []
     \<and> uint (suit (last (pile g))) = slot
     \<and> (if valid (reserveSlots g ! nat slot)
         then rank (reserveSlots g ! nat slot) < rank (last (pile g))
         else rank (last (pile g)) = Ace)
     \<and> g' = g\<lparr>reserveSlots := (reserveSlots g)[nat slot := last (pile g)],
              pile := butlast (pile g)\<rparr>"
  using assms unfolding moveFromPileToReserve_def Let_def by (auto split: if_splits)

lemma moveFromPileToColumn_True:
  assumes "moveFromPileToColumn g toCol = Some (True, g')"
  shows "0 \<le> toCol \<and> toCol < 7 \<and> pile g \<noteq> []
     \<and> g' = g\<lparr>columns := (columns g)[nat toCol := columns g ! nat toCol @ [last (pile g)]],
              pile := butlast (pile g)\<rparr>"
  using assms unfolding moveFromPileToColumn_def Let_def by (simp split: if_splits)

lemma moveFromReserveToColumn_True:
  assumes "moveFromReserveToColumn u g slot toCol = Some (True, g')"
  shows "0 \<le> slot \<and> slot < 4 \<and> 0 \<le> toCol \<and> toCol < 7
     \<and> g' = g\<lparr>columns := (columns g)[nat toCol := columns g ! nat toCol @ [reserveSlots g ! nat slot]],
              reserveSlots := (reserveSlots g)[nat slot :=
                 (if rank (reserveSlots g ! nat slot) \<noteq> Ace
                  then flip (Card_init (suit (reserveSlots g ! nat slot)) (rank (reserveSlots g ! nat slot) - 1))
                  else Card_default u)]\<rparr>"
  using assms unfolding moveFromReserveToColumn_def Let_def by (simp split: if_splits)

lemma moveFromReserveToColumn_succeeds:
  assumes "0 \<le> slot" "slot < 4" "0 \<le> toCol" "toCol < 7"
  shows "succeeds (moveFromReserveToColumn u g slot toCol) \<longleftrightarrow>
         landing_rule (columns g ! nat toCol) (reserveSlots g ! nat slot)"
  using assms by (auto simp: moveFromReserveToColumn_def landing_rule_def Let_def succeeds_def)

lemma moveFromReserveToColumn_total:
  assumes "0 \<le> slot" "slot < 4" "0 \<le> toCol" "toCol < 7"
  shows "moveFromReserveToColumn u g slot toCol \<noteq> None"
  using assms by (auto simp: moveFromReserveToColumn_def Let_def)

section \<open>C3: the pile-to-reserve scenario\<close>

text \<open>
  C3, the claim as stated fails: with the Ace of Hearts in \<^verbatim>\<open>reserves[0]\<close> and the Three
  of Hearts on top of the pile, \<^verbatim>\<open>moveFromPileToReserve(0)\<close> returns \<^verbatim>\<open>true\<close> and the
  slot holds the Three; the claim says the move fails.
\<close>

theorem three_on_ace_accepted:
  "moveFromPileToReserve three_on_ace 0 =
     Some (True, three_on_ace\<lparr>reserveSlots := [face_up Hearts Three, no_card, no_card, no_card],
                              pile := []\<rparr>)"
  by (simp add: moveFromPileToReserve_def sample_defs)

text \<open>
  C3, amended: with the Hearts card \<open>c\<close> on top of the pile, \<^verbatim>\<open>moveFromPileToReserve(0)\<close>
  succeeds and stores \<open>c\<close> in the slot when the slot is empty and \<open>c\<close> is the Ace, and
  also when the slot holds an Ace and \<open>c\<close> is the Three or the Two: the rule compares
  with \<^verbatim>\<open>>\<close>, so a rank gap is accepted.
\<close>

theorem pile_to_reserve_scenario:
  assumes "pile g \<noteq> []" and "suit (last (pile g)) = Hearts"
  shows "((\<not> valid (reserveSlots g ! 0) \<and> rank (last (pile g)) = Ace) \<or>
          (valid (reserveSlots g ! 0) \<and> rank (reserveSlots g ! 0) = Ace \<and>
             (rank (last (pile g)) = Three \<or> rank (last (pile g)) = Two)))
         \<longrightarrow> moveFromPileToReserve g 0 =
               Some (True, g\<lparr>reserveSlots := (reserveSlots g)[0 := last (pile g)],
                              pile := butlast (pile g)\<rparr>)"
  using assms by (auto simp: moveFromPileToReserve_def Let_def)

text \<open>The three moves of the scenario, each from its own sample state.\<close>

theorem pile_to_reserve_scenario_witness:
  "moveFromPileToReserve ace_on_pile 0 =
     Some (True, empty_game\<lparr>reserveSlots := [face_up Hearts Ace, no_card, no_card, no_card]\<rparr>)
   \<and> moveFromPileToReserve three_on_ace 0 =
     Some (True, empty_game\<lparr>reserveSlots := [face_up Hearts Three, no_card, no_card, no_card]\<rparr>)
   \<and> moveFromPileToReserve two_on_ace 0 =
     Some (True, empty_game\<lparr>reserveSlots := [face_up Hearts Two, no_card, no_card, no_card]\<rparr>)"
  using pile_to_reserve_scenario [of ace_on_pile] pile_to_reserve_scenario [of three_on_ace]
    pile_to_reserve_scenario [of two_on_ace]
  by (simp add: sample_defs two_on_ace_def)

section \<open>C8: the landing rule\<close>

text \<open>
  C8: for \<^verbatim>\<open>moveCard\<close> (valid count, face-up run start), \<^verbatim>\<open>moveFromPileToColumn\<close>
  (non-empty pile) and \<^verbatim>\<open>moveFromReserveToColumn\<close>, with indices in range, the
  operation returns \<^verbatim>\<open>true\<close> exactly when the landing rule holds for the destination
  column and the moving (bottom) card.
\<close>

theorem landing_rule_decides:
  "(0 \<le> fromCol \<and> fromCol < 7 \<and> 0 \<le> toCol \<and> toCol < 7 \<and> 0 < cnt \<and>
      nat cnt \<le> length (columns g ! nat fromCol) \<and>
      facingUp (columns g ! nat fromCol ! (length (columns g ! nat fromCol) - nat cnt)) \<longrightarrow>
      succeeds (moveCard g fromCol toCol cnt) =
        landing_rule (columns g ! nat toCol)
          (columns g ! nat fromCol ! (length (columns g ! nat fromCol) - nat cnt)))
   \<and> (0 \<le> toCol \<and> toCol < 7 \<and> pile g \<noteq> [] \<longrightarrow>
      succeeds (moveFromPileToColumn g toCol) =
        landing_rule (columns g ! nat toCol) (last (pile g)))
   \<and> (0 \<le> slot \<and> slot < 4 \<and> 0 \<le> toCol \<and> toCol < 7 \<longrightarrow>
      succeeds (moveFromReserveToColumn u g slot toCol) =
        landing_rule (columns g ! nat toCol) (reserveSlots g ! nat slot))"
proof (intro conjI impI)
  assume "0 \<le> fromCol \<and> fromCol < 7 \<and> 0 \<le> toCol \<and> toCol < 7 \<and> 0 < cnt \<and>
      nat cnt \<le> length (columns g ! nat fromCol) \<and>
      facingUp (columns g ! nat fromCol ! (length (columns g ! nat fromCol) - nat cnt))"
  then show "succeeds (moveCard g fromCol toCol cnt) =
        landing_rule (columns g ! nat toCol)
          (columns g ! nat fromCol ! (length (columns g ! nat fromCol) - nat cnt))"
    by (auto simp: moveCard_def landing_rule_def Let_def succeeds_def)
next
  assume "0 \<le> toCol \<and> toCol < 7 \<and> pile g \<noteq> []"
  then show "succeeds (moveFromPileToColumn g toCol) =
        landing_rule (columns g ! nat toCol) (last (pile g))"
    by (auto simp: moveFromPileToColumn_def landing_rule_def Let_def succeeds_def)
next
  assume "0 \<le> slot \<and> slot < 4 \<and> 0 \<le> toCol \<and> toCol < 7"
  then show "succeeds (moveFromReserveToColumn u g slot toCol) =
        landing_rule (columns g ! nat toCol) (reserveSlots g ! nat slot)"
    by (simp add: moveFromReserveToColumn_succeeds)
qed

text \<open>Accepted and rejected landings of all three operations on the sample table.\<close>

theorem landing_rule_decides_witness:
  "succeeds (moveCard table_ex 0 1 1) \<and> landing_rule [] (face_up Hearts King)
   \<and> \<not> succeeds (moveCard table_ex 0 2 1) \<and> \<not> landing_rule [face_up Spades Three] (face_up Hearts King)
   \<and> succeeds (moveFromPileToColumn table_ex 2) \<and> landing_rule [face_up Spades Three] (face_up Hearts Two)
   \<and> \<not> succeeds (moveFromPileToColumn table_ex 1) \<and> \<not> landing_rule [] (face_up Hearts Two)
   \<and> succeeds (moveFromReserveToColumn no_card table_ex 1 2)
   \<and> landing_rule [face_up Spades Three] (face_up Diamonds Two)
   \<and> \<not> succeeds (moveFromReserveToColumn no_card table_ex 1 1)"
  using landing_rule_decides [of 0 1 1 table_ex 1 no_card]
    landing_rule_decides [of 0 2 1 table_ex 1 no_card]
  by (simp add: sample_defs landing_rule_def isRed_def)

section \<open>C9: the reveal invariant\<close>

text \<open>
  C9: after a successful \<^verbatim>\<open>moveCard\<close> from column \<open>fromCol\<close> or a successful
  \<^verbatim>\<open>moveFromColumnToReserve\<close> from it, the source column, if non-empty, has a face-up
  top card.
\<close>

theorem reveal_invariant:
  assumes "length (columns g) = 7"
    and "moveCard g fromCol toCol cnt = Some (True, g') \<or>
         moveFromColumnToReserve g fromCol slot = Some (True, g')"
    and "columns g' ! nat fromCol \<noteq> []"
  shows "facingUp (last (columns g' ! nat fromCol))"
  using assms(2)
proof
  assume mv: "moveCard g fromCol toCol cnt = Some (True, g')"
  from moveCard_True[OF mv] have r: "0 \<le> fromCol" "fromCol < 7"
    and g': "columns g' = move_run (columns g) (nat fromCol) (nat toCol) (nat cnt)" by simp_all
  from r assms(1) have "nat fromCol < length (columns g)" by simp
  from move_run_from[OF this] obtain col where "columns g' ! nat fromCol = reveal col"
    unfolding g' by blast
  with assms(3) reveal_top show ?thesis by simp
next
  assume mv: "moveFromColumnToReserve g fromCol slot = Some (True, g')"
  from moveFromColumnToReserve_True[OF mv] have r: "0 \<le> fromCol" "fromCol < 7"
    and g': "columns g' = (columns g)[nat fromCol := reveal (butlast (columns g ! nat fromCol))]"
    by simp_all
  from r assms(1) have "nat fromCol < length (columns g)" by simp
  then have "columns g' ! nat fromCol = reveal (butlast (columns g ! nat fromCol))"
    unfolding g' by simp
  with assms(3) reveal_top show ?thesis by simp
qed

text \<open>Moving the King off column 0 of the sample table turns the Five below it face-up.\<close>

theorem reveal_invariant_witness:
  "length (columns table_ex) = 7 \<and> moveCard table_ex 0 1 1 = Some (True, table_after_move)
   \<and> columns table_after_move ! 0 \<noteq> [] \<and> facingUp (last (columns table_after_move ! 0))
   \<and> \<not> facingUp (columns table_ex ! 0 ! 0)"
  using reveal_invariant [of table_ex 0 1 1 table_after_move 0]
  by (simp add: sample_defs table_after_move_def moveCard_def move_run_def reveal_def Let_def)

lemmas sample_defs2 = sample_defs table_after_reserve_move_def sentinel_after_def

section \<open>Facts about shuffling\<close>

lemma swap_at_mset: "i < length xs \<Longrightarrow> j < length xs \<Longrightarrow> mset (swap_at i j xs) = mset xs"
  unfolding swap_at_def by (rule mset_swap)

lemma length_swap_at [simp]: "length (swap_at i j xs) = length xs"
  by (simp add: swap_at_def)

lemma fold_swaps_mset:
  "\<forall>i\<in>set is. i < length xs \<Longrightarrow>
   mset (fold (\<lambda>i ys. swap_at i (g i mod Suc i) ys) is xs) = mset xs \<and>
   length (fold (\<lambda>i ys. swap_at i (g i mod Suc i) ys) is xs) = length xs"
proof (induction "is" arbitrary: xs)
  case Nil
  then show ?case by simp
next
  case (Cons i "is")
  have i: "i < length xs" using Cons.prems by simp
  have "g i mod Suc i < Suc i" by simp
  with i have j: "g i mod Suc i < length xs" by linarith
  have "\<forall>k\<in>set is. k < length (swap_at i (g i mod Suc i) xs)" using Cons.prems by simp
  from Cons.IH[OF this] show ?case using swap_at_mset[OF i j] by simp
qed

lemma mset_shuffle [simp]: "mset (shuffle g xs) = mset xs"
  unfolding shuffle_def using fold_swaps_mset[of "[1..<length xs]" xs g] by simp

lemma length_shuffle [simp]: "length (shuffle g xs) = length xs"
  unfolding shuffle_def using fold_swaps_mset[of "[1..<length xs]" xs g] by simp

lemma set_shuffle [simp]: "set (shuffle g xs) = set xs"
  using mset_shuffle[of g xs] by (metis set_mset_mset)

section \<open>C7: reShuffle\<close>

text \<open>
  C7, the claim as stated fails for a pile that holds a face-down card: \<^verbatim>\<open>reShuffle\<close>
  calls \<^verbatim>\<open>flip\<close>, which toggles, so the face-down Ace of Hearts ends face-up in the deck.
\<close>

theorem reShuffle_face_down_pile_counterexample:
  "Deck_reShuffle (\<lambda>i. 0) [] [Card_init Hearts Ace] = Some ([face_up Hearts Ace], [])
   \<and> facingUp (face_up Hearts Ace)"
  by (simp add: Deck_reShuffle_def Deck_isEmpty_def shuffle_def sample_defs)

text \<open>
  C7, amended: when the deck is empty, \<^verbatim>\<open>Deck::reShuffle(pile)\<close> leaves the pile empty
  and the deck a permutation of the pile's cards with the facing flag of each toggled;
  when every card of the pile is face-up, every card of the deck ends face-down.
\<close>

theorem reShuffle_toggles:
  assumes "Deck_isEmpty cards"
  shows "\<exists>d. Deck_reShuffle g cards p = Some (d, []) \<and>
             mset d = image_mset flip (mset p) \<and>
             ((\<forall>c\<in>set p. facingUp c) \<longrightarrow> (\<forall>c\<in>set d. \<not> facingUp c))"
proof -
  let ?d = "map flip (shuffle g p)"
  have 1: "Deck_reShuffle g cards p = Some (?d, [])"
    using assms by (simp add: Deck_reShuffle_def)
  have 2: "mset ?d = image_mset flip (mset p)" by simp
  have 3: "(\<forall>c\<in>set p. facingUp c) \<longrightarrow> (\<forall>c\<in>set ?d. \<not> facingUp c)"
    by (auto simp: flip_def)
  from 1 2 3 show ?thesis by blast
qed

text \<open>Two face-up cards reshuffled into an empty deck.\<close>

theorem reShuffle_toggles_witness:
  "Deck_isEmpty [] \<and>
   Deck_reShuffle (\<lambda>i. 0) [] [face_up Hearts Ace, face_up Spades King]
     = Some ([Card_init Spades King, Card_init Hearts Ace], [])"
  using reShuffle_toggles [of "[]" "\<lambda>i. 0" "[face_up Hearts Ace, face_up Spades King]"]
  by (simp add: Deck_reShuffle_def Deck_isEmpty_def shuffle_def swap_at_def sample_defs)

section \<open>C10: moveFromReserveToColumn does not look at the valid flag\<close>

text \<open>
  C10: for indices in range, \<^verbatim>\<open>moveFromReserveToColumn\<close> returns \<^verbatim>\<open>true\<close> exactly when
  the landing rule holds for the card stored in the slot, and then pushes that card; the
  rule does not depend on the card's \<^verbatim>\<open>valid\<close> flag, so the move is never refused
  because the slot is empty. On the sample state the slot holds the empty sentinel, the
  move succeeds and the sentinel ends on top of the column.
\<close>

theorem reserve_to_column_unchecked:
  assumes "0 \<le> slot" "slot < 4" "0 \<le> toCol" "toCol < 7"
  shows "moveFromReserveToColumn u g slot toCol =
           (if landing_rule (columns g ! nat toCol) (reserveSlots g ! nat slot)
            then Some (True,
              g\<lparr>columns := (columns g)[nat toCol := columns g ! nat toCol @ [reserveSlots g ! nat slot]],
                reserveSlots := (reserveSlots g)[nat slot :=
                  (if rank (reserveSlots g ! nat slot) \<noteq> Ace
                   then flip (Card_init (suit (reserveSlots g ! nat slot)) (rank (reserveSlots g ! nat slot) - 1))
                   else Card_default u)]\<rparr>)
            else Some (False, g))
         \<and> landing_rule (columns g ! nat toCol) ((reserveSlots g ! nat slot)\<lparr>valid := v\<rparr>)
             = landing_rule (columns g ! nat toCol) (reserveSlots g ! nat slot)
         \<and> \<not> valid (reserveSlots sentinel_game ! 0)
         \<and> moveFromReserveToColumn no_card sentinel_game 0 2 = Some (True, sentinel_after)
         \<and> last (columns sentinel_after ! 2) = reserveSlots sentinel_game ! 0"
proof (intro conjI)
  show "moveFromReserveToColumn u g slot toCol =
           (if landing_rule (columns g ! nat toCol) (reserveSlots g ! nat slot)
            then Some (True,
              g\<lparr>columns := (columns g)[nat toCol := columns g ! nat toCol @ [reserveSlots g ! nat slot]],
                reserveSlots := (reserveSlots g)[nat slot :=
                  (if rank (reserveSlots g ! nat slot) \<noteq> Ace
                   then flip (Card_init (suit (reserveSlots g ! nat slot)) (rank (reserveSlots g ! nat slot) - 1))
                   else Card_default u)]\<rparr>)
            else Some (False, g))"
    using assms by (auto simp: moveFromReserveToColumn_def landing_rule_def Let_def)
  show "landing_rule (columns g ! nat toCol) ((reserveSlots g ! nat slot)\<lparr>valid := v\<rparr>)
             = landing_rule (columns g ! nat toCol) (reserveSlots g ! nat slot)"
    by (simp add: landing_rule_def isRed_def)
  show "\<not> valid (reserveSlots sentinel_game ! 0)" by (simp add: sample_defs2)
  show "moveFromReserveToColumn no_card sentinel_game 0 2 = Some (True, sentinel_after)"
    by (simp add: moveFromReserveToColumn_def sample_defs2 isRed_def)
  show "last (columns sentinel_after ! 2) = reserveSlots sentinel_game ! 0"
    by (simp add: sample_defs2)
qed

text \<open>The sentinel lands on the Three of Spades and is refused on an empty column.\<close>

theorem reserve_to_column_unchecked_witness:
  "moveFromReserveToColumn no_card sentinel_game 0 2 = Some (True, sentinel_after)
   \<and> landing_rule (columns sentinel_game ! 2) (reserveSlots sentinel_game ! 0)
   \<and> moveFromReserveToColumn no_card sentinel_game 0 0 = Some (False, sentinel_game)
   \<and> \<not> landing_rule (columns sentinel_game ! 0) (reserveSlots sentinel_game ! 0)"
  using reserve_to_column_unchecked [of 0 2 no_card sentinel_game]
    reserve_to_column_unchecked [of 0 0 no_card sentinel_game]
  by (simp add: sample_defs2 landing_rule_def isRed_def)

section \<open>C5: the reserve slots\<close>

lemma drawCard_reserve: "drawCard g = Some (b, g') \<Longrightarrow> reserveSlots g' = reserveSlots g"
  by (auto simp: drawCard_def split: if_splits option.splits)

lemma moveCard_reserve: "moveCard g f t c = Some (b, g') \<Longrightarrow> reserveSlots g' = reserveSlots g"
  unfolding moveCard_def Let_def by (auto split: if_splits)

lemma moveFromPileToColumn_reserve:
  "moveFromPileToColumn g t = Some (b, g') \<Longrightarrow> reserveSlots g' = reserveSlots g"
  unfolding moveFromPileToColumn_def Let_def by (auto split: if_splits)

lemma reShuffle_reserve: "reShuffle rnd g = Some g' \<Longrightarrow> reserveSlots g' = reserveSlots g"
  by (auto simp: reShuffle_def split: option.splits)

text \<open>
  C5, the claim as stated fails: moving the Two of Diamonds from \<^verbatim>\<open>reserves[1]\<close> to a
  column leaves the slot occupied by a card of lower rank, the Ace of Diamonds.
\<close>

theorem reserve_rank_decreases:
  "moveFromReserveToColumn no_card table_ex 1 2 = Some (True, table_after_reserve_move)
   \<and> valid (reserveSlots table_ex ! 1) \<and> valid (reserveSlots table_after_reserve_move ! 1)
   \<and> rank (reserveSlots table_after_reserve_move ! 1) < rank (reserveSlots table_ex ! 1)"
  by (simp add: moveFromReserveToColumn_def sample_defs2 isRed_def)

text \<open>
  C5, amended: a successful \<^verbatim>\<open>moveFromPileToReserve\<close> or \<^verbatim>\<open>moveFromColumnToReserve\<close>
  into slot \<open>i\<close> stores a card of suit \<open>i\<close> whose rank is strictly greater than that of
  a valid previous occupant; a successful \<^verbatim>\<open>moveFromReserveToColumn\<close> from a slot with a
  valid card empties the slot when the card is an Ace and otherwise leaves a valid card of
  the same suit and the rank one lower; the other slots are unchanged, the remaining
  operations change no slot, and under these steps every valid occupant of slot \<open>i\<close>
  keeps suit \<open>i\<close>.
\<close>

theorem foundation_steps:
  assumes "wf_game g"
  shows "(moveFromPileToReserve g slot = Some (True, g') \<or>
          moveFromColumnToReserve g fromCol slot = Some (True, g') \<longrightarrow>
            uint (suit (reserveSlots g' ! nat slot)) = slot \<and>
            (valid (reserveSlots g ! nat slot) \<longrightarrow>
               rank (reserveSlots g ! nat slot) < rank (reserveSlots g' ! nat slot)) \<and>
            (\<forall>j<4. j \<noteq> nat slot \<longrightarrow> reserveSlots g' ! j = reserveSlots g ! j) \<and>
            (reserve_suits_ok g \<longrightarrow> reserve_suits_ok g'))
       \<and> (moveFromReserveToColumn u g slot toCol = Some (True, g') \<and>
          valid (reserveSlots g ! nat slot) \<longrightarrow>
            (if rank (reserveSlots g ! nat slot) = Ace then \<not> valid (reserveSlots g' ! nat slot)
             else valid (reserveSlots g' ! nat slot) \<and>
                  suit (reserveSlots g' ! nat slot) = suit (reserveSlots g ! nat slot) \<and>
                  rank (reserveSlots g' ! nat slot) = rank (reserveSlots g ! nat slot) - 1) \<and>
            (\<forall>j<4. j \<noteq> nat slot \<longrightarrow> reserveSlots g' ! j = reserveSlots g ! j) \<and>
            (reserve_suits_ok g \<longrightarrow> reserve_suits_ok g'))
       \<and> (drawCard g = Some (b, g') \<or> moveCard g fromCol toCol cnt = Some (b, g') \<or>
          moveFromPileToColumn g toCol = Some (b, g') \<or> reShuffle rnd g = Some g' \<longrightarrow>
            reserveSlots g' = reserveSlots g)"
proof (intro conjI impI)
  have len: "length (reserveSlots g) = 4" using assms by (simp add: wf_game_def)
  {
    fix c assume g': "reserveSlots g' = (reserveSlots g)[nat slot := c]"
      and r: "0 \<le> slot" "slot < 4" and s: "uint (suit c) = slot"
      and rk: "valid (reserveSlots g ! nat slot) \<longrightarrow> rank (reserveSlots g ! nat slot) < rank c"
    have n: "nat slot < length (reserveSlots g)" using r len by simp
    have a: "uint (suit (reserveSlots g' ! nat slot)) = slot" using g' n s by simp
    have b: "valid (reserveSlots g ! nat slot) \<longrightarrow>
        rank (reserveSlots g ! nat slot) < rank (reserveSlots g' ! nat slot)"
      using g' n rk by simp
    have c: "\<forall>j<4. j \<noteq> nat slot \<longrightarrow> reserveSlots g' ! j = reserveSlots g ! j"
      using g' by simp
    have "unat (suit c) = nat slot" using s by (simp add: unat_eq_nat_uint)
    then have d: "reserve_suits_ok g \<longrightarrow> reserve_suits_ok g'"
      unfolding reserve_suits_ok_def g' using n by (auto simp: nth_list_update)
    note a b c d
  } note place = this
  {
    assume "moveFromPileToReserve g slot = Some (True, g') \<or>
          moveFromColumnToReserve g fromCol slot = Some (True, g')"
    then have "\<exists>c. reserveSlots g' = (reserveSlots g)[nat slot := c] \<and> 0 \<le> slot \<and> slot < 4 \<and>
       uint (suit c) = slot \<and>
       (valid (reserveSlots g ! nat slot) \<longrightarrow> rank (reserveSlots g ! nat slot) < rank c)"
    proof
      assume "moveFromPileToReserve g slot = Some (True, g')"
      from moveFromPileToReserve_True[OF this] show ?thesis
        by (intro exI[of _ "last (pile g)"]) (auto split: if_splits)
    next
      assume "moveFromColumnToReserve g fromCol slot = Some (True, g')"
      from moveFromColumnToReserve_True[OF this] show ?thesis
        by (intro exI[of _ "last (columns g ! nat fromCol)"]) (auto split: if_splits)
    qed
    then obtain c where "reserveSlots g' = (reserveSlots g)[nat slot := c]" "0 \<le> slot" "slot < 4"
       "uint (suit c) = slot"
       "valid (reserveSlots g ! nat slot) \<longrightarrow> rank (reserveSlots g ! nat slot) < rank c"
      by blast
    note place[OF this]
  } note to_reserve = this
  show "uint (suit (reserveSlots g' ! nat slot)) = slot"
    if "moveFromPileToReserve g slot = Some (True, g') \<or>
          moveFromColumnToReserve g fromCol slot = Some (True, g')"
    using to_reserve(1)[OF that] .
  show "rank (reserveSlots g ! nat slot) < rank (reserveSlots g' ! nat slot)"
    if "moveFromPileToReserve g slot = Some (True, g') \<or>
          moveFromColumnToReserve g fromCol slot = Some (True, g')"
       "valid (reserveSlots g ! nat slot)"
    using to_reserve(2)[OF that(1)] that(2) by simp
  show "\<forall>j<4. j \<noteq> nat slot \<longrightarrow> reserveSlots g' ! j = reserveSlots g ! j"
    if "moveFromPileToReserve g slot = Some (True, g') \<or>
          moveFromColumnToReserve g fromCol slot = Some (True, g')"
    using to_reserve(3)[OF that] .
  show "reserve_suits_ok g'"
    if "moveFromPileToReserve g slot = Some (True, g') \<or>
          moveFromColumnToReserve g fromCol slot = Some (True, g')" "reserve_suits_ok g"
    using to_reserve(4)[OF that(1)] that(2) by simp
  {
    assume a: "moveFromReserveToColumn u g slot toCol = Some (True, g') \<and>
          valid (reserveSlots g ! nat slot)"
    let ?old = "reserveSlots g ! nat slot"
    let ?new = "if rank ?old \<noteq> Ace then flip (Card_init (suit ?old) (rank ?old - 1)) else Card_default u"
    from a moveFromReserveToColumn_True[of u g slot toCol g']
    have r: "0 \<le> slot" "slot < 4" and g': "reserveSlots g' = (reserveSlots g)[nat slot := ?new]"
      by simp_all
    have n: "nat slot < length (reserveSlots g)" using r len by simp
    have new: "reserveSlots g' ! nat slot = ?new" using g' n by simp
    have 1: "if rank ?old = Ace then \<not> valid (reserveSlots g' ! nat slot)
             else valid (reserveSlots g' ! nat slot) \<and>
                  suit (reserveSlots g' ! nat slot) = suit ?old \<and>
                  rank (reserveSlots g' ! nat slot) = rank ?old - 1"
      unfolding new by (simp add: flip_def Card_init_def Card_default_def)
    have 2: "\<forall>j<4. j \<noteq> nat slot \<longrightarrow> reserveSlots g' ! j = reserveSlots g ! j"
      using g' by simp
    have 3: "reserve_suits_ok g \<longrightarrow> reserve_suits_ok g'"
    proof
      assume ok: "reserve_suits_ok g"
      have "unat (suit ?old) = nat slot"
        using ok a r unfolding reserve_suits_ok_def by (auto simp: nat_less_iff)
      then show "reserve_suits_ok g'"
        using ok n unfolding reserve_suits_ok_def g'
        by (auto simp: nth_list_update flip_def Card_init_def Card_default_def)
    qed
    note 1 2 3
  } note from_reserve = this
  show "if rank (reserveSlots g ! nat slot) = Ace then \<not> valid (reserveSlots g' ! nat slot)
             else valid (reserveSlots g' ! nat slot) \<and>
                  suit (reserveSlots g' ! nat slot) = suit (reserveSlots g ! nat slot) \<and>
                  rank (reserveSlots g' ! nat slot) = rank (reserveSlots g ! nat slot) - 1"
    if "moveFromReserveToColumn u g slot toCol = Some (True, g') \<and>
          valid (reserveSlots g ! nat slot)"
    using from_reserve(1)[OF that] .
  show "\<forall>j<4. j \<noteq> nat slot \<longrightarrow> reserveSlots g' ! j = reserveSlots g ! j"
    if "moveFromReserveToColumn u g slot toCol = Some (True, g') \<and>
          valid (reserveSlots g ! nat slot)"
    using from_reserve(2)[OF that] .
  show "reserve_suits_ok g'"
    if "moveFromReserveToColumn u g slot toCol = Some (True, g') \<and>
          valid (reserveSlots g ! nat slot)" "reserve_suits_ok g"
    using from_reserve(3)[OF that(1)] that(2) by simp
  show "reserveSlots g' = reserveSlots g"
    if "drawCard g = Some (b, g') \<or> moveCard g fromCol toCol cnt = Some (b, g') \<or>
          moveFromPileToColumn g toCol = Some (b, g') \<or> reShuffle rnd g = Some g'"
    using that drawCard_reserve moveCard_reserve moveFromPileToColumn_reserve reShuffle_reserve
    by blast
qed

lemma all_less_4: "(\<forall>i<4. P i) = (P 0 \<and> P 1 \<and> P 2 \<and> P (3::nat))"
proof -
  have "i < 4 \<Longrightarrow> i = 0 \<or> i = 1 \<or> i = 2 \<or> i = 3" for i :: nat by arith
  then show ?thesis by auto
qed

text \<open>A placement onto an occupied slot and a move back to a column, on the sample states.\<close>

theorem foundation_steps_witness:
  "wf_game two_on_ace \<and> reserve_suits_ok two_on_ace
   \<and> moveFromPileToReserve two_on_ace 0 = Some (True, two_on_ace_after)
   \<and> rank (reserveSlots two_on_ace ! 0) < rank (reserveSlots two_on_ace_after ! 0)
   \<and> reserve_suits_ok two_on_ace_after
   \<and> wf_game table_ex \<and> reserve_suits_ok table_ex
   \<and> moveFromReserveToColumn no_card table_ex 1 2 = Some (True, table_after_reserve_move)
   \<and> rank (reserveSlots table_after_reserve_move ! 1) = rank (reserveSlots table_ex ! 1) - 1
   \<and> reserve_suits_ok table_after_reserve_move"
proof -
  have wf: "wf_game two_on_ace" "wf_game table_ex"
    by (simp_all add: wf_game_def sample_defs2)
  have ok: "reserve_suits_ok two_on_ace" "reserve_suits_ok table_ex"
    by (simp_all add: reserve_suits_ok_def all_less_4 sample_defs2)
  have m1: "moveFromPileToReserve two_on_ace 0 = Some (True, two_on_ace_after)"
    by (simp add: moveFromPileToReserve_def sample_defs2 two_on_ace_after_def)
  have m2: "moveFromReserveToColumn no_card table_ex 1 2 = Some (True, table_after_reserve_move)"
    by (simp add: moveFromReserveToColumn_def sample_defs2 isRed_def)
  have r: "rank (reserveSlots table_after_reserve_move ! 1) = rank (reserveSlots table_ex ! 1) - 1"
    by (simp add: sample_defs2)
  have v: "valid (reserveSlots two_on_ace ! 0)" "valid (reserveSlots table_ex ! 1)"
    "valid (reserveSlots table_ex ! Suc 0)"
    by (simp_all add: sample_defs2)
  from foundation_steps [OF wf(1), of 0 two_on_ace_after 0 no_card 0 True 0 "\<lambda>i. i"]
    foundation_steps [OF wf(2), of 1 table_after_reserve_move 0 no_card 2 True 0 "\<lambda>i. i"]
    wf ok m1 m2 r v
  show ?thesis by simp
qed

section \<open>C4: the winning condition\<close>

declare column_loop.simps [simp del] won_loop.simps [simp del]

lemma column_loop_iff:
  "column_loop col j \<longleftrightarrow>
     (\<forall>k. j \<le> k \<and> k < 13 \<longrightarrow>
        rank (col ! k) = of_nat (13 - k) \<and> facingUp (col ! k) \<and>
        (k > 0 \<longrightarrow> isRed (col ! k) \<noteq> isRed (col ! (k - 1))))"
proof (induction col j rule: column_loop.induct)
  case (1 column j)
  let ?P = "\<lambda>k. rank (column ! k) = of_nat (13 - k) \<and> facingUp (column ! k) \<and>
        (k > 0 \<longrightarrow> isRed (column ! k) \<noteq> isRed (column ! (k - 1)))"
  show ?case
  proof (cases "j < 13")
    case False
    then show ?thesis by (subst column_loop.simps) auto
  next
    case True
    show ?thesis
    proof (cases "?P j")
      case False
      then have "\<not> column_loop column j" using True by (subst column_loop.simps) auto
      moreover have "\<not> (\<forall>k. j \<le> k \<and> k < 13 \<longrightarrow> ?P k)" using False True by blast
      ultimately show ?thesis by blast
    next
      case Pj: True
      then have "column_loop column j = column_loop column (j + 1)"
        using True by (subst column_loop.simps) auto
      also have "\<dots> = (\<forall>k. j + 1 \<le> k \<and> k < 13 \<longrightarrow> ?P k)"
        using "1.IH" True Pj by auto
      also have "\<dots> = (\<forall>k. j \<le> k \<and> k < 13 \<longrightarrow> ?P k)"
      proof -
        have "j \<le> k \<longleftrightarrow> k = j \<or> j + 1 \<le> k" for k by arith
        then show ?thesis using Pj by metis
      qed
      finally show ?thesis .
    qed
  qed
qed

lemma king_to_ace_nth: "k < 13 \<Longrightarrow> king_to_ace ! k = of_nat (13 - k)"
  by (simp add: king_to_ace_def rev_nth Suc_diff_Suc)

lemma length_king_to_ace [simp]: "length king_to_ace = 13"
  by (simp add: king_to_ace_def)

lemma column_loop_complete:
  assumes "length col = 13"
  shows "column_loop col 0 = complete_column col"
proof -
  have r: "(map rank col = king_to_ace) = (\<forall>k<13. rank (col ! k) = of_nat (13 - k))"
    using assms by (auto simp: list_eq_iff_nth_eq king_to_ace_nth)
  have f: "(\<forall>c\<in>set col. facingUp c) = (\<forall>k<13. facingUp (col ! k))"
    using assms by (simp add: all_set_conv_all_nth)
  have a: "(\<forall>j\<in>{0..<length col - 1}. isRed (col ! Suc j) \<noteq> isRed (col ! j)) =
           (\<forall>k<13. k > 0 \<longrightarrow> isRed (col ! k) \<noteq> isRed (col ! (k - 1)))"
  proof
    assume h: "\<forall>j\<in>{0..<length col - 1}. isRed (col ! Suc j) \<noteq> isRed (col ! j)"
    show "\<forall>k<13. k > 0 \<longrightarrow> isRed (col ! k) \<noteq> isRed (col ! (k - 1))"
    proof (intro allI impI)
      fix k :: nat assume k: "k < 13" "0 < k"
      then have "k - 1 \<in> {0..<length col - 1}" using assms by auto
      from h[rule_format, OF this] k show "isRed (col ! k) \<noteq> isRed (col ! (k - 1))" by simp
    qed
  next
    assume h: "\<forall>k<13. k > 0 \<longrightarrow> isRed (col ! k) \<noteq> isRed (col ! (k - 1))"
    show "\<forall>j\<in>{0..<length col - 1}. isRed (col ! Suc j) \<noteq> isRed (col ! j)"
    proof
      fix j assume "j \<in> {0..<length col - 1}"
      then have "Suc j < 13" using assms by auto
      from h[rule_format, OF this] show "isRed (col ! Suc j) \<noteq> isRed (col ! j)" by simp
    qed
  qed
  show ?thesis
    unfolding column_loop_iff complete_column_def r f a using assms by auto
qed

lemma won_loop_count:
  "length cols = 7 \<Longrightarrow> i \<le> 7 \<Longrightarrow>
   won_loop cols i cnt = cnt + int (length (filter complete_column (drop i cols)))"
proof (induction cols i cnt rule: won_loop.induct)
  case (1 cols i cnt)
  show ?case
  proof (cases "i < 7")
    case False
    with "1.prems" show ?thesis by (subst won_loop.simps) simp
  next
    case True
    then have d: "drop i cols = cols ! i # drop (i + 1) cols"
      using "1.prems" by (simp add: Cons_nth_drop_Suc)
    show ?thesis
    proof (cases "length (cols ! i) = 13")
      case False
      then have nc: "\<not> complete_column (cols ! i)" by (simp add: complete_column_def)
      have "won_loop cols i cnt = won_loop cols (i + 1) cnt"
        using True False by (subst won_loop.simps) simp
      also have "\<dots> = cnt + int (length (filter complete_column (drop (i + 1) cols)))"
        using "1.IH"(1)[OF True refl False] "1.prems" True by simp
      finally show ?thesis using d nc by simp
    next
      case len: True
      have "won_loop cols i cnt =
            won_loop cols (i + 1) (if column_loop (cols ! i) 0 then cnt + 1 else cnt)"
        using True len by (subst won_loop.simps) simp
      also have "\<dots> = (if column_loop (cols ! i) 0 then cnt + 1 else cnt) +
                       int (length (filter complete_column (drop (i + 1) cols)))"
        using "1.IH"(2)[OF True refl] len "1.prems" True by simp
      finally show ?thesis using d column_loop_complete[OF len] by simp
    qed
  qed
qed

text \<open>
  C4: \<^verbatim>\<open>isGameWon()\<close> returns \<^verbatim>\<open>true\<close> if and only if exactly 4 of the seven columns
  each hold exactly 13 cards in King-to-Ace rank order, every card face-up and adjacent
  cards of different colour.
\<close>

theorem isGameWon_iff:
  assumes "length (columns g) = 7"
  shows "isGameWon g \<longleftrightarrow> length (filter complete_column (columns g)) = 4"
  unfolding isGameWon_def using won_loop_count[OF assms, of 0 0] by simp

text \<open>Four complete columns win; the sample table does not.\<close>

theorem isGameWon_iff_witness:
  "length (columns won_game) = 7 \<and> isGameWon won_game
   \<and> length (filter complete_column (columns won_game)) = 4
   \<and> length (columns table_ex) = 7 \<and> \<not> isGameWon table_ex
   \<and> length (filter complete_column (columns table_ex)) \<noteq> 4"
proof -
  have a: "isGameWon won_game" by code_simp
  have b: "length (filter complete_column (columns won_game)) = 4" by code_simp
  have c: "length (columns won_game) = 7" "length (columns table_ex) = 7"
    by (simp_all add: won_game_def sample_defs)
  have d: "\<not> isGameWon table_ex" by code_simp
  from isGameWon_iff [OF c(1)] isGameWon_iff [OF c(2)] a b c d show ?thesis by simp
qed

section \<open>C6: the value returned by saveFileGame\<close>

lemma saveFileGame_unopenable:
  "unopenable fs (name @ ''.sot'') \<Longrightarrow> saveFileGame g name fs = (Some False, fs)"
  by (simp add: saveFileGame_def)

lemma saveFileGame_opened:
  "\<not> unopenable fs (name @ ''.sot'') \<Longrightarrow> fst (saveFileGame g name fs) = None"
  by (simp add: saveFileGame_def Let_def)

text \<open>
  C6 on the code: saving a one-card deck under the name \<^verbatim>\<open>latest\<close>, with a file that
  opens, writes the file and ends without a \<^verbatim>\<open>return\<close> statement, so no value
  \<^verbatim>\<open>true\<close> is returned.
\<close>

theorem saveFileGame_returns_nothing:
  "fst (saveFileGame one_card_deck ''latest'' empty_fs) = None
   \<and> files (snd (saveFileGame one_card_deck ''latest'' empty_fs)) ''latest.sot'' =
       Some ([83, 111, 108, 105, 116, 97, 105, 114, 101] @ [1, 0, 0, 0] @
             [0, 0, 0, 0, 1, 0, 0, 0, 0, 1] @ concat (replicate 8 [0, 0, 0, 0]) @
             concat (replicate 4 [0, 0, 0, 0, 0, 0, 0, 0, 0, 0]))"
  by code_simp

section \<open>C1: saving and loading\<close>

text \<open>
  C1 on the code: a game whose deck holds the single card Ace of Hearts is saved and then
  loaded into an empty game. The loaded deck has two cards, a default-constructed card
  followed by the Ace, because \<^verbatim>\<open>readFileGame\<close> sizes the vector and then pushes onto it.
\<close>

theorem load_after_save_doubles_deck:
  "map_option (deck \<circ> snd)
     (fst (readFileGame no_card [] empty_game ''latest''
            (snd (saveFileGame one_card_deck ''latest'' empty_fs))))
   = Some [no_card, Card_init Hearts Ace]
   \<and> deck one_card_deck = [Card_init Hearts Ace]"
  by code_simp

section \<open>C2: conservation of the 52 cards\<close>

lemma unface_flip [simp]: "unface (flip c) = unface c"
  by (simp add: unface_def flip_def)

lemma valid_unface [simp]: "valid (unface c) = valid c"
  by (simp add: unface_def)

lemma key_unface [simp]: "key (unface c) = key c"
  by (simp add: unface_def key_def)

lemma faceless_simps [simp]:
  "faceless [] = {#}"
  "faceless (xs @ ys) = faceless xs + faceless ys"
  "faceless (x # xs) = add_mset (unface x) (faceless xs)"
  "faceless (map flip xs) = faceless xs"
  by (simp_all add: faceless_def comp_def)

lemma faceless_shuffle [simp]: "faceless (shuffle g xs) = faceless xs"
  by (simp add: faceless_def)

lemma faceless_reveal [simp]: "faceless (reveal col) = faceless col"
proof (cases "col = []")
  case True
  then show ?thesis by (simp add: reveal_def)
next
  case False
  then have "col = butlast col @ [last col]" by simp
  then have "faceless col = faceless (butlast col) + {#unface (last col)#}"
    by (metis faceless_simps(1,2,3) add_mset_add_single)
  then show ?thesis by (simp add: reveal_def)
qed

lemma faceless_snoc_last: "xs \<noteq> [] \<Longrightarrow> faceless xs = add_mset (unface (last xs)) (faceless (butlast xs))"
proof -
  assume "xs \<noteq> []"
  then have "xs = butlast xs @ [last xs]" by simp
  then have "faceless xs = faceless (butlast xs @ [last xs])" by simp
  then show ?thesis by (simp del: append_butlast_last_id)
qed

lemma faceless_concat_update:
  "i < length cols \<Longrightarrow>
   faceless (concat (cols[i := c])) + faceless (cols ! i) = faceless (concat cols) + faceless c"
proof (induction cols arbitrary: i)
  case Nil
  then show ?case by simp
next
  case (Cons a cols)
  show ?case
  proof (cases i)
    case 0
    then show ?thesis by simp
  next
    case (Suc j)
    with Cons.prems have "j < length cols" by simp
    from Cons.IH[OF this] show ?thesis using Suc by (simp add: ac_simps)
  qed
qed

lemma faceless_filter_update:
  "s < length rs \<Longrightarrow>
   faceless (filter valid (rs[s := c])) + (if valid (rs ! s) then {#unface (rs ! s)#} else {#})
     = faceless (filter valid rs) + (if valid c then {#unface c#} else {#})"
proof (induction rs arbitrary: s)
  case Nil
  then show ?case by simp
next
  case (Cons a rs)
  show ?case
  proof (cases s)
    case 0
    then show ?thesis by simp
  next
    case (Suc j)
    with Cons.prems have "j < length rs" by simp
    from Cons.IH[OF this] show ?thesis using Suc by (auto split: if_splits)
  qed
qed

lemma valid_canonical: "c \<in> set canonical_cards \<Longrightarrow> valid c"
  by (auto simp: canonical_cards_def Card_init_def)

lemma unface_canonical: "map unface canonical_cards = canonical_cards"
  by (simp add: canonical_cards_def map_concat comp_def unface_def Card_init_def)

lemma held_valid:
  assumes "all_cards_held g" "c \<in> set (held_cards g)"
  shows "valid c"
proof -
  have "unface c \<in># faceless (held_cards g)" using assms(2) by (auto simp: faceless_def)
  then have "unface c \<in> set canonical_cards"
    using assms(1) by (simp add: all_cards_held_def)
  from valid_canonical[OF this] show ?thesis by simp
qed

lemma faceless_held:
  "faceless (held_cards g) =
     faceless (deck g) + faceless (concat (columns g)) + faceless (pile g) +
     faceless (filter valid (reserveSlots g))"
  by (simp add: held_cards_def)

lemma Deck_drawCard_Some:
  "Deck_drawCard d = Some (c, d') \<Longrightarrow> d \<noteq> [] \<and> c = last d \<and> d' = butlast d"
  by (auto simp: Deck_drawCard_def Deck_isEmpty_def last_conv_nth split: if_splits)

lemma drawCard_Some:
  assumes "drawCard g = Some (b, g')"
  shows "(\<not> b \<and> g' = g) \<or>
         (b \<and> deck g \<noteq> [] \<and>
          g' = g\<lparr>deck := butlast (deck g), currentCard := flip (last (deck g)),
                 pile := pile g @ [flip (last (deck g))]\<rparr>)"
  using assms
  by (auto simp: drawCard_def Deck_isEmpty_def split: if_splits option.splits
           dest!: Deck_drawCard_Some)

lemma moveCard_False: "moveCard g f t c = Some (False, g') \<Longrightarrow> g' = g"
  unfolding moveCard_def Let_def by (simp split: if_splits)

lemma moveFromPileToColumn_False: "moveFromPileToColumn g t = Some (False, g') \<Longrightarrow> g' = g"
  unfolding moveFromPileToColumn_def Let_def by (simp split: if_splits)

lemma moveFromPileToReserve_False: "moveFromPileToReserve g s = Some (False, g') \<Longrightarrow> g' = g"
  unfolding moveFromPileToReserve_def Let_def by (simp split: if_splits)

lemma moveFromColumnToReserve_False:
  "moveFromColumnToReserve g f s = Some (False, g') \<Longrightarrow> g' = g"
  unfolding moveFromColumnToReserve_def Let_def by (simp split: if_splits)

lemma moveFromReserveToColumn_False:
  "moveFromReserveToColumn u g s t = Some (False, g') \<Longrightarrow> g' = g"
  unfolding moveFromReserveToColumn_def Let_def by (simp split: if_splits)

lemma reShuffle_Some:
  "reShuffle rnd g = Some g' \<Longrightarrow>
   deck g = [] \<and> g' = g\<lparr>deck := map flip (shuffle rnd (pile g)), pile := []\<rparr>"
  by (auto simp: reShuffle_def Deck_reShuffle_def Deck_isEmpty_def split: option.splits if_splits)

lemma keep_drawCard:
  assumes "all_cards_held g" "drawCard g = Some (b, g')"
  shows "all_cards_held g'"
proof -
  from drawCard_Some[OF assms(2)] show ?thesis
  proof
    assume "\<not> b \<and> g' = g"
    with assms(1) show ?thesis by simp
  next
    assume a: "b \<and> deck g \<noteq> [] \<and>
          g' = g\<lparr>deck := butlast (deck g), currentCard := flip (last (deck g)),
                 pile := pile g @ [flip (last (deck g))]\<rparr>"
    then have "faceless (held_cards g') = faceless (held_cards g)"
      using faceless_snoc_last[of "deck g"] by (simp add: faceless_held)
    with assms(1) a show ?thesis by (simp add: all_cards_held_def wf_game_def)
  qed
qed

lemma keep_reShuffle:
  assumes "all_cards_held g" "reShuffle rnd g = Some g'"
  shows "all_cards_held g'"
proof -
  from reShuffle_Some[OF assms(2)]
  have d: "deck g = []" and g': "g' = g\<lparr>deck := map flip (shuffle rnd (pile g)), pile := []\<rparr>"
    by simp_all
  have "faceless (held_cards g') = faceless (held_cards g)"
    by (simp add: faceless_held g' d)
  with assms(1) show ?thesis by (simp add: all_cards_held_def wf_game_def g')
qed

lemma move_run_faceless:
  assumes f: "f < length cols" and t: "t < length cols" and c: "c \<le> length (cols ! f)"
  shows "faceless (concat (move_run cols f t c)) = faceless (concat cols)"
proof -
  define src where "src = cols ! f"
  define moving where "moving = drop (length src - c) src"
  define cols1 where "cols1 = cols[t := cols ! t @ moving]"
  define from1 where "from1 = cols1 ! f"
  define cols2 where "cols2 = cols1[f := take (length from1 - c) from1]"
  have mr: "move_run cols f t c = cols2[f := reveal (cols2 ! f)]"
    by (simp add: move_run_def Let_def cols2_def from1_def cols1_def moving_def src_def)
  have lm: "length moving = c" using c by (simp add: moving_def src_def)
  have 1: "faceless (concat cols1) = faceless (concat cols) + faceless moving"
    using faceless_concat_update[OF t, of "cols ! t @ moving"] by (simp add: cols1_def)
  have f1: "f < length cols1" using f by (simp add: cols1_def)
  have dropped: "drop (length from1 - c) from1 = moving"
  proof (cases "f = t")
    case True
    then have "from1 = src @ moving" using t by (simp add: from1_def cols1_def src_def)
    then show ?thesis using lm by simp
  next
    case False
    then have "from1 = src" by (simp add: from1_def cols1_def src_def)
    then show ?thesis by (simp add: moving_def)
  qed
  have "from1 = take (length from1 - c) from1 @ drop (length from1 - c) from1" by simp
  then have fr: "faceless from1 = faceless (take (length from1 - c) from1) + faceless moving"
    using dropped by (metis faceless_simps(2))
  have 2: "faceless (concat cols2) + faceless moving = faceless (concat cols1)"
    using faceless_concat_update[OF f1, of "take (length from1 - c) from1"] fr
    by (simp add: cols2_def from1_def)
  have f2: "f < length cols2" using f1 by (simp add: cols2_def)
  have 3: "faceless (concat (cols2[f := reveal (cols2 ! f)])) = faceless (concat cols2)"
    using faceless_concat_update[OF f2, of "reveal (cols2 ! f)"] by simp
  from 1 2 3 show ?thesis unfolding mr by simp
qed

lemma keep_moveCard:
  assumes "all_cards_held g" "moveCard g fromCol toCol cnt = Some (b, g')"
  shows "all_cards_held g'"
proof (cases b)
  case False
  with assms(2) have "moveCard g fromCol toCol cnt = Some (False, g')" by simp
  from moveCard_False[OF this] assms(1) show ?thesis by simp
next
  case True
  with assms(2) have "moveCard g fromCol toCol cnt = Some (True, g')" by simp
  from moveCard_True[OF this]
  have r: "0 \<le> fromCol" "fromCol < 7" "0 \<le> toCol" "toCol < 7"
      "nat cnt \<le> length (columns g ! nat fromCol)"
    and g': "g' = g\<lparr>columns := move_run (columns g) (nat fromCol) (nat toCol) (nat cnt)\<rparr>"
    by simp_all
  have len: "length (columns g) = 7" using assms(1) by (simp add: all_cards_held_def wf_game_def)
  have "faceless (concat (move_run (columns g) (nat fromCol) (nat toCol) (nat cnt)))
        = faceless (concat (columns g))"
    using r len by (intro move_run_faceless) simp_all
  then have "faceless (held_cards g') = faceless (held_cards g)"
    by (simp add: faceless_held g')
  with assms(1) show ?thesis by (simp add: all_cards_held_def wf_game_def g')
qed

lemma keep_moveFromPileToColumn:
  assumes "all_cards_held g" "moveFromPileToColumn g toCol = Some (b, g')"
  shows "all_cards_held g'"
proof (cases b)
  case False
  with assms(2) have "moveFromPileToColumn g toCol = Some (False, g')" by simp
  from moveFromPileToColumn_False[OF this] assms(1) show ?thesis by simp
next
  case True
  with assms(2) have "moveFromPileToColumn g toCol = Some (True, g')" by simp
  from moveFromPileToColumn_True[OF this]
  have r: "0 \<le> toCol" "toCol < 7" "pile g \<noteq> []"
    and g': "g' = g\<lparr>columns := (columns g)[nat toCol := columns g ! nat toCol @ [last (pile g)]],
              pile := butlast (pile g)\<rparr>"
    by simp_all
  have len: "length (columns g) = 7" using assms(1) by (simp add: all_cards_held_def wf_game_def)
  have t: "nat toCol < length (columns g)" using r len by simp
  have "faceless (concat ((columns g)[nat toCol := columns g ! nat toCol @ [last (pile g)]]))
        = add_mset (unface (last (pile g))) (faceless (concat (columns g)))"
    using faceless_concat_update[OF t, of "columns g ! nat toCol @ [last (pile g)]"] by simp
  then have "faceless (held_cards g') = faceless (held_cards g)"
    using faceless_snoc_last[OF r(3)] by (simp add: faceless_held g')
  with assms(1) show ?thesis by (simp add: all_cards_held_def wf_game_def g')
qed

lemma keep_moveFromPileToReserve:
  assumes "all_cards_held g" "\<not> valid (reserveSlots g ! nat slot)"
    and "moveFromPileToReserve g slot = Some (b, g')"
  shows "all_cards_held g'"
proof (cases b)
  case False
  with assms(3) have "moveFromPileToReserve g slot = Some (False, g')" by simp
  from moveFromPileToReserve_False[OF this] assms(1) show ?thesis by simp
next
  case True
  with assms(3) have "moveFromPileToReserve g slot = Some (True, g')" by simp
  from moveFromPileToReserve_True[OF this]
  have r: "0 \<le> slot" "slot < 4" "pile g \<noteq> []"
    and g': "g' = g\<lparr>reserveSlots := (reserveSlots g)[nat slot := last (pile g)],
              pile := butlast (pile g)\<rparr>"
    by simp_all
  have len: "length (reserveSlots g) = 4"
    using assms(1) by (simp add: all_cards_held_def wf_game_def)
  have s: "nat slot < length (reserveSlots g)" using r len by simp
  have "last (pile g) \<in> set (held_cards g)" using r(3) by (simp add: held_cards_def)
  from held_valid[OF assms(1) this] have v: "valid (last (pile g))" .
  have "faceless (filter valid ((reserveSlots g)[nat slot := last (pile g)]))
        = add_mset (unface (last (pile g))) (faceless (filter valid (reserveSlots g)))"
    using faceless_filter_update[OF s, of "last (pile g)"] v assms(2) by simp
  then have "faceless (held_cards g') = faceless (held_cards g)"
    using faceless_snoc_last[OF r(3)] by (simp add: faceless_held g')
  with assms(1) show ?thesis by (simp add: all_cards_held_def wf_game_def g')
qed

lemma keep_moveFromColumnToReserve:
  assumes "all_cards_held g" "\<not> valid (reserveSlots g ! nat slot)"
    and "moveFromColumnToReserve g fromCol slot = Some (b, g')"
  shows "all_cards_held g'"
proof (cases b)
  case False
  with assms(3) have "moveFromColumnToReserve g fromCol slot = Some (False, g')" by simp
  from moveFromColumnToReserve_False[OF this] assms(1) show ?thesis by simp
next
  case True
  with assms(3) have "moveFromColumnToReserve g fromCol slot = Some (True, g')" by simp
  from moveFromColumnToReserve_True[OF this]
  have r: "0 \<le> fromCol" "fromCol < 7" "0 \<le> slot" "slot < 4" "columns g ! nat fromCol \<noteq> []"
    and g': "g' = g\<lparr>reserveSlots := (reserveSlots g)[nat slot := last (columns g ! nat fromCol)],
              columns := (columns g)[nat fromCol := reveal (butlast (columns g ! nat fromCol))]\<rparr>"
    by simp_all
  let ?col = "columns g ! nat fromCol"
  have len: "length (reserveSlots g) = 4" "length (columns g) = 7"
    using assms(1) by (simp_all add: all_cards_held_def wf_game_def)
  have s: "nat slot < length (reserveSlots g)" using r len by simp
  have f: "nat fromCol < length (columns g)" using r len by simp
  have "?col \<in> set (columns g)" using f by simp
  moreover have "last ?col \<in> set ?col" using r(5) by simp
  ultimately have "last ?col \<in> set (concat (columns g))" by auto
  then have "last ?col \<in> set (held_cards g)" by (simp add: held_cards_def)
  from held_valid[OF assms(1) this] have v: "valid (last ?col)" .
  have 1: "faceless (filter valid ((reserveSlots g)[nat slot := last ?col]))
        = add_mset (unface (last ?col)) (faceless (filter valid (reserveSlots g)))"
    using faceless_filter_update[OF s, of "last ?col"] v assms(2) by simp
  have 2: "add_mset (unface (last ?col))
             (faceless (concat ((columns g)[nat fromCol := reveal (butlast ?col)])))
           = faceless (concat (columns g))"
    using faceless_concat_update[OF f, of "reveal (butlast ?col)"] faceless_snoc_last[OF r(5)]
    by simp
  have "faceless (held_cards g') = faceless (held_cards g)"
    unfolding faceless_held g' using 1 2[symmetric] by simp
  with assms(1) show ?thesis by (simp add: all_cards_held_def wf_game_def g')
qed

lemma keep_moveFromReserveToColumn:
  assumes "all_cards_held g" "valid (reserveSlots g ! nat slot)"
    and "rank (reserveSlots g ! nat slot) = Ace"
    and "moveFromReserveToColumn u g slot toCol = Some (b, g')"
  shows "all_cards_held g'"
proof (cases b)
  case False
  with assms(4) have "moveFromReserveToColumn u g slot toCol = Some (False, g')" by simp
  from moveFromReserveToColumn_False[OF this] assms(1) show ?thesis by simp
next
  case True
  with assms(4) have "moveFromReserveToColumn u g slot toCol = Some (True, g')" by simp
  from moveFromReserveToColumn_True[OF this] assms(3)
  have r: "0 \<le> slot" "slot < 4" "0 \<le> toCol" "toCol < 7"
    and g': "g' = g\<lparr>columns := (columns g)[nat toCol := columns g ! nat toCol @ [reserveSlots g ! nat slot]],
              reserveSlots := (reserveSlots g)[nat slot := Card_default u]\<rparr>"
    by simp_all
  let ?c = "reserveSlots g ! nat slot"
  have len: "length (reserveSlots g) = 4" "length (columns g) = 7"
    using assms(1) by (simp_all add: all_cards_held_def wf_game_def)
  have s: "nat slot < length (reserveSlots g)" using r len by simp
  have t: "nat toCol < length (columns g)" using r len by simp
  have 1: "add_mset (unface ?c) (faceless (filter valid ((reserveSlots g)[nat slot := Card_default u])))
        = faceless (filter valid (reserveSlots g))"
    using faceless_filter_update[OF s, of "Card_default u"] assms(2)
    by (simp add: Card_default_def)
  have 2: "faceless (concat ((columns g)[nat toCol := columns g ! nat toCol @ [?c]]))
           = add_mset (unface ?c) (faceless (concat (columns g)))"
    using faceless_concat_update[OF t, of "columns g ! nat toCol @ [?c]"] by simp
  have "faceless (held_cards g') = faceless (held_cards g)"
    unfolding faceless_held g' using 1[symmetric] 2 by simp
  with assms(1) show ?thesis by (simp add: all_cards_held_def wf_game_def g')
qed

lemma deal_Some:
  "deal n d col = Some (d', col') \<Longrightarrow>
   faceless d' + faceless col' = faceless d + faceless col \<and> length col' = length col + n"
proof (induction n arbitrary: d col)
  case 0
  then show ?case by simp
next
  case (Suc n)
  from Suc.prems obtain c d1 where dc: "Deck_drawCard d = Some (c, d1)"
    and rest: "deal n d1 (col @ [c]) = Some (d', col')"
    by (auto split: option.splits)
  from Deck_drawCard_Some[OF dc] have "d \<noteq> []" "c = last d" "d1 = butlast d" by simp_all
  with faceless_snoc_last[of d] have "faceless d = add_mset (unface c) (faceless d1)" by simp
  with Suc.IH[OF rest] show ?case by simp
qed

lemma faceless_flip_at: "k < length col \<Longrightarrow> faceless (col[k := flip (col ! k)]) = faceless col"
proof -
  assume k: "k < length col"
  have "map unface (col[k := flip (col ! k)]) = (map unface col)[k := (map unface col) ! k]"
    using k by (simp add: map_update)
  then show ?thesis by (simp add: faceless_def)
qed

lemma start_loop_keep:
  "\<forall>i\<in>set is. i < length (columns g) \<Longrightarrow> start_loop is g = Some g' \<Longrightarrow>
   faceless (held_cards g') = faceless (held_cards g) \<and>
   length (columns g') = length (columns g) \<and> reserveSlots g' = reserveSlots g"
proof (induction "is" arbitrary: g)
  case Nil
  then show ?case by simp
next
  case (Cons i "is")
  from Cons.prems(2) obtain d' col where dl: "deal (i + 1) (deck g) (columns g ! i) = Some (d', col)"
    and rest: "start_loop is
            (g\<lparr>deck := d',
               columns := (columns g)[i := col[length col - 1 := flip (col ! (length col - 1))]]\<rparr>)
          = Some g'"
    by (auto split: option.splits)
  let ?col2 = "col[length col - 1 := flip (col ! (length col - 1))]"
  let ?g1 = "g\<lparr>deck := d', columns := (columns g)[i := ?col2]\<rparr>"
  have i: "i < length (columns g)" using Cons.prems(1) by simp
  from deal_Some[OF dl] have m: "faceless d' + faceless col = faceless (deck g) + faceless (columns g ! i)"
    and l: "length col = length (columns g ! i) + (i + 1)" by simp_all
  have c2: "faceless ?col2 = faceless col" using l by (intro faceless_flip_at) simp
  have "faceless (concat ((columns g)[i := ?col2])) + faceless (columns g ! i)
        = faceless (concat (columns g)) + faceless col"
    using faceless_concat_update[OF i, of ?col2] c2 by simp
  then have "faceless d' + faceless (concat ((columns g)[i := ?col2])) + faceless (columns g ! i)
        = faceless (deck g) + faceless (concat (columns g)) + faceless (columns g ! i)"
    using m by (simp add: ac_simps)
  then have "faceless d' + faceless (concat ((columns g)[i := ?col2]))
        = faceless (deck g) + faceless (concat (columns g))"
    by simp
  then have 1: "faceless (held_cards ?g1) = faceless (held_cards g)"
    by (simp add: faceless_held)
  have "\<forall>k\<in>set is. k < length (columns ?g1)" using Cons.prems(1) by simp
  from Cons.IH[OF this rest] 1 show ?case by simp
qed

lemma Game_new_held: "all_cards_held (Game_new rnd u)"
proof -
  have "filter valid (replicate 4 (Card_default u)) = []"
    by (simp add: filter_empty_conv Card_default_def)
  then have "faceless (held_cards (Game_new rnd u)) = faceless canonical_cards"
    by (simp add: faceless_held Game_new_def Deck_reset_def)
  also have "\<dots> = mset canonical_cards" by (simp add: faceless_def unface_canonical del: mset_map)
  finally show ?thesis by (simp add: all_cards_held_def wf_game_def Game_new_def)
qed

lemma keep_start:
  assumes "all_cards_held g" "start g = Some g'"
  shows "all_cards_held g'"
proof -
  have "\<forall>i\<in>set [0..<7]. i < length (columns g)"
    using assms(1) by (simp add: all_cards_held_def wf_game_def)
  from start_loop_keep[OF this] assms(2) assms(1) show ?thesis
    by (simp add: start_def all_cards_held_def wf_game_def)
qed

lemma reachable_keeping_held: "reachable_keeping g \<Longrightarrow> all_cards_held g"
proof (induction rule: reachable_keeping.induct)
  case (k_start rnd u g)
  then show ?case using keep_start[OF Game_new_held] by blast
next
  case (k_drawCard g b g')
  then show ?case using keep_drawCard by blast
next
  case (k_moveCard g fromCol toCol cnt b g')
  then show ?case using keep_moveCard by blast
next
  case (k_moveFromPileToColumn g toCol b g')
  then show ?case using keep_moveFromPileToColumn by blast
next
  case (k_moveFromPileToReserve g slot b g')
  then show ?case using keep_moveFromPileToReserve by blast
next
  case (k_moveFromColumnToReserve g slot fromCol b g')
  then show ?case using keep_moveFromColumnToReserve by blast
next
  case (k_moveFromReserveToColumn g slot u toCol b g')
  then show ?case using keep_moveFromReserveToColumn by blast
next
  case (k_reShuffle g rnd g')
  then show ?case using keep_reShuffle by blast
qed

lemma canonical_keys: "map key canonical_cards = canonical_pairs"
  by code_simp

lemma canonical_pairs_distinct: "distinct canonical_pairs \<and> length canonical_pairs = 52"
  by code_simp

lemma held_card_multiset:
  assumes "all_cards_held g"
  shows "card_multiset g = mset canonical_pairs"
proof -
  have "card_multiset g = image_mset key (image_mset unface (mset (held_cards g)))"
    by (simp add: card_multiset_def image_mset.compositionality comp_def)
  also have "\<dots> = image_mset key (mset canonical_cards)"
    using assms by (simp add: all_cards_held_def faceless_def)
  also have "\<dots> = mset canonical_pairs"
    using canonical_keys by (metis mset_map)
  finally show ?thesis .
qed

text \<open>
  C2, amended: for every state reachable from \<^verbatim>\<open>start()\<close> by \<^verbatim>\<open>drawCard\<close>,
  \<^verbatim>\<open>moveCard\<close>, \<^verbatim>\<open>moveFromPileToColumn\<close>, \<^verbatim>\<open>reShuffle\<close>, by
  \<^verbatim>\<open>moveFromPileToReserve\<close> and \<^verbatim>\<open>moveFromColumnToReserve\<close> into an empty slot and
  by \<^verbatim>\<open>moveFromReserveToColumn\<close> of a valid Ace, the multiset of (suit, rank) pairs
  across deck, columns, pile and valid reserve slots is the canonical 52-card set, each
  pair exactly once.
\<close>

theorem cards_conserved:
  assumes "reachable_keeping g"
  shows "card_multiset g = mset canonical_pairs \<and> distinct canonical_pairs \<and>
         length canonical_pairs = 52"
  using held_card_multiset[OF reachable_keeping_held[OF assms]] canonical_pairs_distinct by simp

lemma dealt_eval: "start (Game_new ace_first no_card) = Some dealt"
  by code_simp

lemma ace_placed_eval: "moveFromColumnToReserve dealt 0 3 = Some (True, ace_placed)"
  by code_simp

lemma ace_lost_eval: "moveFromColumnToReserve ace_placed 1 3 = Some (True, ace_lost)"
  by code_simp

text \<open>
  C2, the claim as stated fails: after the deal, moving the Ace of Spades and then the Two
  of Spades to \<^verbatim>\<open>reserves[3]\<close> overwrites the Ace, and the reached state holds 51 cards.
\<close>

theorem overwritten_ace_counterexample:
  "reachable ace_lost \<and> size (card_multiset ace_lost) = 51 \<and>
   card_multiset ace_lost \<noteq> mset canonical_pairs"
proof -
  have "reachable dealt" by (rule r_start[OF dealt_eval])
  then have "reachable ace_placed" by (rule r_moveFromColumnToReserve[OF _ ace_placed_eval])
  then have r: "reachable ace_lost" by (rule r_moveFromColumnToReserve[OF _ ace_lost_eval])
  have "length (held_cards ace_lost) = 51" by code_simp
  then have s: "size (card_multiset ace_lost) = 51" by (simp add: card_multiset_def)
  have "size (mset canonical_pairs) = 52" using canonical_pairs_distinct by simp
  with s have "card_multiset ace_lost \<noteq> mset canonical_pairs" by auto
  with r s show ?thesis by simp
qed

text \<open>The deal and the first move to the empty reserve slot keep all 52 cards.\<close>

theorem cards_conserved_witness:
  "reachable_keeping ace_placed \<and> card_multiset ace_placed = mset canonical_pairs"
proof -
  have nv: "\<not> valid (reserveSlots dealt ! nat 3)" by code_simp
  have "reachable_keeping dealt" by (rule k_start[OF dealt_eval])
  then have r: "reachable_keeping ace_placed"
    by (rule k_moveFromColumnToReserve[OF _ nv ace_placed_eval])
  from cards_conserved[OF r] r show ?thesis by simp
qed

section \<open>Reading back what was written\<close>

lemma le_bytes_inverse_mask:
  fixes v :: "32 word"
  shows "or (ucast (ucast (and v (mask 8)) :: byte))
           (or (push_bit 8 (ucast (ucast (and (signed_drop_bit 8 v) (mask 8)) :: byte)))
              (or (push_bit 16 (ucast (ucast (and (signed_drop_bit 16 v) (mask 8)) :: byte)))
                  (push_bit 24 (ucast (ucast (and (signed_drop_bit 24 v) (mask 8)) :: byte))))) = v"
    (is "?lhs = v")
proof (rule bit_word_eqI)
  fix n :: nat
  assume "n < LENGTH(32)"
  then consider "n < 8" | "8 \<le> n" "n < 16" | "16 \<le> n" "n < 24" | "24 \<le> n" "n < 32"
    by fastforce
  then show "bit ?lhs n = bit v n"
  proof cases
    case 1
    then show ?thesis by (auto simp: bit_simps bit_signed_drop_bit_iff)
  next
    case 2
    then show ?thesis by (auto simp: bit_simps bit_signed_drop_bit_iff)
  next
    case 3
    then show ?thesis by (auto simp: bit_simps bit_signed_drop_bit_iff)
  next
    case 4
    then show ?thesis by (auto simp: bit_simps bit_signed_drop_bit_iff)
  qed
qed

lemma le_bytes_inverse:
  fixes v :: "32 word"
  shows "or (ucast (ucast (and v 255) :: byte))
           (or (push_bit 8 (ucast (ucast (and (signed_drop_bit 8 v) 255) :: byte)))
              (or (push_bit 16 (ucast (ucast (and (signed_drop_bit 16 v) 255) :: byte)))
                  (push_bit 24 (ucast (ucast (and (signed_drop_bit 24 v) 255) :: byte))))) = v"
proof -
  have m: "(255 :: 32 word) = mask 8" by (simp add: mask_eq_exp_minus_1)
  show ?thesis unfolding m by (rule le_bytes_inverse_mask)
qed

lemma byte_via_int: "ucast (ucast (s :: byte) :: 32 word) = s"
  by (rule bit_word_eqI) (auto simp: bit_simps)

lemma sint_count:
  assumes "n < 2 ^ 31"
  shows "sint (of_nat n :: 32 word) = int n"
proof -
  have "sint (of_nat n :: 32 word) = signed_take_bit 31 (int n)"
    by (simp add: signed_of_nat)
  also have "\<dots> = int n"
    using assms by (intro signed_take_bit_int_eq_self) simp_all
  finally show ?thesis .
qed

lemma writeInt_append: "writeInt w v = w @ writeInt [] v"
  by (simp add: writeInt_def)

lemma writeCard_append: "writeCard c w = w @ writeCard c []"
  by (simp add: writeCard_def writeInt_def writeBool_def)

lemma fold_writeCard: "fold writeCard cs w = w @ concat (map (\<lambda>c. writeCard c []) cs)"
proof (induction cs arbitrary: w)
  case Nil
  then show ?case by simp
next
  case (Cons c cs)
  show ?case using Cons.IH[of "writeCard c w"] writeCard_append[of c w] by simp
qed

lemma write_cards_append:
  "write_cards cs w =
     w @ writeInt [] (of_nat (length cs)) @ concat (map (\<lambda>c. writeCard c []) cs)"
  using fold_writeCard[of cs "writeInt w (of_nat (length cs))"]
    writeInt_append[of w "of_nat (length cs)"]
  by (simp add: write_cards_def)

lemma readInt_bytes:
  assumes "\<not> r_fail r" "r_bytes r = writeInt [] v @ rest"
  shows "readInt r = (v, r\<lparr>r_bytes := rest\<rparr>)"
  using assms by (simp add: readInt_def reader_read_def writeInt_def le_bytes_inverse)

lemma readBool_bytes:
  assumes "\<not> r_fail r" "r_bytes r = writeBool [] b @ rest"
  shows "readBool r = (if b then 1 else 0, r\<lparr>r_bytes := rest\<rparr>)"
  using assms by (simp add: readBool_def reader_read_def writeBool_def)

lemma readCard_bytes:
  assumes "\<not> r_fail r" "r_bytes r = writeCard c [] @ rest"
  shows "readCard r = (c, r\<lparr>r_bytes := rest\<rparr>)"
proof -
  let ?r1 = "r\<lparr>r_bytes := writeInt [] (ucast (rank c)) @ writeBool [] (facingUp c) @
                              writeBool [] (valid c) @ rest\<rparr>"
  let ?r2 = "r\<lparr>r_bytes := writeBool [] (facingUp c) @ writeBool [] (valid c) @ rest\<rparr>"
  let ?r3 = "r\<lparr>r_bytes := writeBool [] (valid c) @ rest\<rparr>"
  have b: "r_bytes r = writeInt [] (ucast (suit c)) @ r_bytes ?r1"
    using assms(2) by (simp add: writeCard_def writeInt_def writeBool_def)
  have 1: "readInt r = (ucast (suit c), ?r1)"
    using readInt_bytes[OF assms(1) b] by simp
  have 2: "readInt ?r1 = (ucast (rank c), ?r2)"
    using readInt_bytes[of ?r1 "ucast (rank c)"] assms(1) by simp
  have 3: "readBool ?r2 = (if facingUp c then 1 else 0, ?r3)"
    using readBool_bytes[of ?r2 "facingUp c"] assms(1) by simp
  have 4: "readBool ?r3 = (if valid c then 1 else 0, r\<lparr>r_bytes := rest\<rparr>)"
    using readBool_bytes[of ?r3 "valid c"] assms(1) by simp
  have eq: "\<lparr>suit = ucast (ucast (suit c) :: 32 word), rank = ucast (ucast (rank c) :: 32 word),
             facingUp = ((if facingUp c then 1 else 0 :: 32 word) \<noteq> 0),
             valid = ((if valid c then 1 else 0 :: 32 word) \<noteq> 0)\<rparr> = c"
    by (cases c) (simp add: byte_via_int)
  show ?thesis
    by (simp add: readCard_def 1 2 3 4 eq)
qed

lemma read_cards_bytes:
  "\<not> r_fail r \<Longrightarrow> r_bytes r = concat (map (\<lambda>c. writeCard c []) cs) @ rest \<Longrightarrow>
   read_cards (length cs) r = (cs, r\<lparr>r_bytes := rest\<rparr>)"
proof (induction cs arbitrary: r)
  case Nil
  then show ?case by simp
next
  case (Cons c cs)
  let ?r1 = "r\<lparr>r_bytes := concat (map (\<lambda>c. writeCard c []) cs) @ rest\<rparr>"
  have "readCard r = (c, ?r1)"
    using readCard_bytes[OF Cons.prems(1), of c] Cons.prems(2) by simp
  moreover have "read_cards (length cs) ?r1 = (cs, ?r1\<lparr>r_bytes := rest\<rparr>)"
    using Cons.IH[of ?r1] Cons.prems(1) by simp
  ultimately show ?case by simp
qed

lemma read_block:
  assumes "\<not> r_fail r" "length cs < 2 ^ 31"
    and "r_bytes r = writeInt [] (of_nat (length cs)) @ concat (map (\<lambda>c. writeCard c []) cs) @ rest"
  shows "\<exists>sz r1. readInt r = (sz, r1) \<and> sint sz = int (length cs) \<and>
           read_cards (nat (sint sz)) r1 = (cs, r\<lparr>r_bytes := rest\<rparr>)"
proof -
  let ?r1 = "r\<lparr>r_bytes := concat (map (\<lambda>c. writeCard c []) cs) @ rest\<rparr>"
  have 1: "readInt r = (of_nat (length cs), ?r1)"
    using readInt_bytes[OF assms(1) assms(3)] .
  have 2: "sint (of_nat (length cs) :: 32 word) = int (length cs)"
    using sint_count[OF assms(2)] .
  have 3: "read_cards (length cs) ?r1 = (cs, r\<lparr>r_bytes := rest\<rparr>)"
    using read_cards_bytes[of ?r1 cs rest] assms(1) by simp
  from 1 2 3 show ?thesis by simp
qed

lemma fold_write_columns:
  "fold (\<lambda>i w. write_cards (src ! i) w) is w =
     w @ concat (map (\<lambda>i. writeInt [] (of_nat (length (src ! i))) @
                            concat (map (\<lambda>c. writeCard c []) (src ! i))) is)"
proof (induction "is" arbitrary: w)
  case Nil
  then show ?case by simp
next
  case (Cons i "is")
  show ?case using Cons.IH[of "write_cards (src ! i) w"] write_cards_append[of "src ! i" w] by simp
qed

lemma read_columns_bytes:
  "\<not> r_fail r \<Longrightarrow> \<forall>i\<in>set is. length (src ! i) < 2 ^ 31 \<Longrightarrow>
   r_bytes r = concat (map (\<lambda>i. writeInt [] (of_nat (length (src ! i))) @
                                 concat (map (\<lambda>c. writeCard c []) (src ! i))) is) @ rest \<Longrightarrow>
   read_columns is r cols = Some (fold (\<lambda>i c. c[i := src ! i]) is cols, r\<lparr>r_bytes := rest\<rparr>)"
proof (induction "is" arbitrary: r cols)
  case Nil
  then show ?case by simp
next
  case (Cons i "is")
  let ?rest1 = "concat (map (\<lambda>i. writeInt [] (of_nat (length (src ! i))) @
                                 concat (map (\<lambda>c. writeCard c []) (src ! i))) is) @ rest"
  have b: "r_bytes r = writeInt [] (of_nat (length (src ! i))) @
             concat (map (\<lambda>c. writeCard c []) (src ! i)) @ ?rest1"
    using Cons.prems(3) by simp
  have l: "length (src ! i) < 2 ^ 31" using Cons.prems(2) by simp
  from read_block[OF Cons.prems(1) l b] obtain sz r1 where
    1: "readInt r = (sz, r1)" and 2: "sint sz = int (length (src ! i))"
    and 3: "read_cards (nat (sint sz)) r1 = (src ! i, r\<lparr>r_bytes := ?rest1\<rparr>)"
    by blast
  have "read_columns is (r\<lparr>r_bytes := ?rest1\<rparr>) (cols[i := src ! i])
        = Some (fold (\<lambda>i c. c[i := src ! i]) is (cols[i := src ! i]), r\<lparr>r_bytes := rest\<rparr>)"
    using Cons.IH[of "r\<lparr>r_bytes := ?rest1\<rparr>" "cols[i := src ! i]"] Cons.prems(1,2) by simp
  with 1 2 3 show ?case by simp
qed

lemma fold_update_prefix:
  "k \<le> length src \<Longrightarrow> length cols = length src \<Longrightarrow>
   fold (\<lambda>i c. c[i := src ! i]) [0..<k] cols = take k src @ drop k cols"
proof (induction k)
  case 0
  then show ?case by simp
next
  case (Suc k)
  then have k: "k < length src" "k < length cols" by simp_all
  have "fold (\<lambda>i c. c[i := src ! i]) [0..<Suc k] cols = (take k src @ drop k cols)[k := src ! k]"
    using Suc by simp
  also have "\<dots> = take k src @ (drop k cols)[0 := src ! k]"
    using k by (simp add: list_update_append)
  also have "drop k cols = cols ! k # drop (Suc k) cols"
    using k by (simp add: Cons_nth_drop_Suc)
  also have "take k src @ (cols ! k # drop (Suc k) cols)[0 := src ! k]
             = take (Suc k) src @ drop (Suc k) cols"
    using k by (simp add: take_Suc_conv_app_nth)
  finally show ?case .
qed

lemma fold_update_all:
  "length cols = length src \<Longrightarrow> fold (\<lambda>i c. c[i := src ! i]) [0..<length src] cols = src"
  using fold_update_prefix[of "length src" src cols] by simp

lemma fold_write_slots:
  "fold (\<lambda>i w. writeCard (rs ! i) w) is w = w @ concat (map (\<lambda>c. writeCard c []) (map ((!) rs) is))"
proof (induction "is" arbitrary: w)
  case Nil
  then show ?case by simp
next
  case (Cons i "is")
  show ?case using Cons.IH[of "writeCard (rs ! i) w"] writeCard_append[of "rs ! i" w] by simp
qed

lemma length_magicNumber [simp]: "length magicNumber = 9"
  by (simp add: magicNumber_def)

text \<open>
  What \<^verbatim>\<open>readFileGame\<close> makes of a file written by \<^verbatim>\<open>saveFileGame\<close>, for any state with
  fewer than \<open>2\<^sup>3\<^sup>1\<close> cards in each collection: columns, pile and reserves are
  reproduced, and the deck comes back behind as many default-constructed cards as it has
  cards.
\<close>

lemma load_after_save:
  assumes wf: "wf_game g" and len0: "length (columns g0) = 7"
    and op: "\<not> unopenable fs (name @ ''.sot'')"
    and small: "length (deck g) < 2 ^ 31" "\<forall>col\<in>set (columns g). length col < 2 ^ 31"
      "length (pile g) < 2 ^ 31"
  shows "fst (readFileGame u uv g0 name (snd (saveFileGame g name fs))) =
         Some (True, g0\<lparr>deck := replicate (length (deck g)) (Card_default u) @ deck g,
                        columns := columns g, pile := pile g,
                        reserveSlots := reserveSlots g\<rparr>)"
proof -
  let ?path = "name @ ''.sot''"
  let ?cb = "\<lambda>cs. writeInt [] (of_nat (length cs)) @ concat (map (\<lambda>c. writeCard c []) cs)"
  let ?colb = "concat (map (\<lambda>i. ?cb (columns g ! i)) [0..<7])"
  let ?resb = "concat (map (\<lambda>c. writeCard c []) (reserveSlots g))"
  let ?content = "magicNumber @ ?cb (deck g) @ ?colb @ ?cb (pile g) @ ?resb"
  have lc: "length (columns g) = 7" and lr: "length (reserveSlots g) = 4"
    using wf by (simp_all add: wf_game_def)
  have rs: "map ((!) (reserveSlots g)) [0..<4] = reserveSlots g"
    using map_nth[of "reserveSlots g"] lr by simp
  have saved: "snd (saveFileGame g name fs) = fs\<lparr>files := (files fs)(?path := Some ?content)\<rparr>"
    using op rs
    by (simp add: saveFileGame_def Let_def write_cards_append fold_write_columns fold_write_slots)
  let ?fs = "fs\<lparr>files := (files fs)(?path := Some ?content)\<rparr>"
  let ?r0 = "\<lparr>r_bytes = ?content, r_fail = False\<rparr>"
  let ?r1 = "\<lparr>r_bytes = ?cb (deck g) @ ?colb @ ?cb (pile g) @ ?resb, r_fail = False\<rparr>"
  let ?r3 = "?r1\<lparr>r_bytes := ?colb @ ?cb (pile g) @ ?resb\<rparr>"
  let ?r4 = "?r3\<lparr>r_bytes := ?cb (pile g) @ ?resb\<rparr>"
  let ?r6 = "?r4\<lparr>r_bytes := ?resb\<rparr>"
  have magic: "reader_read ?r0 9 = (magicNumber, ?r1)"
    by (simp add: reader_read_def)
  from read_block[of ?r1 "deck g" "?colb @ ?cb (pile g) @ ?resb"] small(1)
  obtain dsz r2 where d1: "readInt ?r1 = (dsz, r2)" and d2: "sint dsz = int (length (deck g))"
    and d3: "read_cards (nat (sint dsz)) r2 = (deck g, ?r3)"
    by auto
  have cols_small: "\<forall>i\<in>set [0..<7]. length (columns g ! i) < 2 ^ 31"
    using small(2) lc by simp
  have c: "read_columns [0..<7] ?r3 (columns g0) = Some (columns g, ?r4)"
  proof -
    have "read_columns [0..<7] ?r3 (columns g0)
          = Some (fold (\<lambda>i c. c[i := columns g ! i]) [0..<7] (columns g0), ?r4)"
      using read_columns_bytes[of ?r3 "[0..<7]" "columns g" "?cb (pile g) @ ?resb" "columns g0"]
        cols_small by simp
    moreover have "fold (\<lambda>i c. c[i := columns g ! i]) [0..<7] (columns g0) = columns g"
      using fold_update_all[of "columns g0" "columns g"] lc len0 by simp
    ultimately show ?thesis by simp
  qed
  from read_block[of ?r4 "pile g" ?resb] small(3)
  obtain psz r5 where p1: "readInt ?r4 = (psz, r5)" and p2: "sint psz = int (length (pile g))"
    and p3: "read_cards (nat (sint psz)) r5 = (pile g, ?r6)"
    by auto
  have r: "read_cards 4 ?r6 = (reserveSlots g, ?r6\<lparr>r_bytes := []\<rparr>)"
    using read_cards_bytes[of ?r6 "reserveSlots g" "[]"] lr by simp
  show ?thesis
    unfolding saved
    using op magic d1 d2 d3 c p1 p2 p3 r
    by (simp add: readFileGame_def Let_def)
qed

end
